theory Spec2Isabelle
  imports Complex_Main
begin

section \<open>Exact odds for Exchange Hi Lo: the probability engine of prob.c\<close>

text \<open>
  The development embeds the functions of \<^verbatim>\<open>prob.c\<close> one by one, under their own names.
  Every array is a list read and written through bounds-checked accessors, so that an access
  outside an allocation is the value \<open>Inl OutOfBounds\<close> instead of an unspecified list element.
  The rationals of GMP (\<^verbatim>\<open>mpq_t\<close>) are the type \<open>rat\<close>, whose representation is canonical, as
  GMP's is after \<^verbatim>\<open>mpq_canonicalize\<close>.

  The integer types of C are read in one of two ways, chosen by the first argument of every
  function that computes with them: \<open>Mathematical\<close> reads \<^verbatim>\<open>int\<close>, \<^verbatim>\<open>long\<close> and
  \<^verbatim>\<open>unsigned long\<close> as unbounded integers; \<open>FixedWidth\<close> gives them 32, 64 and 64 bits
  (LP64), makes a signed result outside its type the error \<open>IntegerOverflow\<close> (undefined
  behaviour in C) and lets a conversion to \<^verbatim>\<open>unsigned long\<close> wrap modulo \<open>2 ^ 64\<close>.
  Index arithmetic on \<^verbatim>\<open>size\<close>, \<^verbatim>\<open>stage\<close> and \<^verbatim>\<open>numberLower\<close> is unbounded in both readings.
  The program is the \<open>FixedWidth\<close> reading; \<open>Mathematical\<close> is the idealisation it is compared
  with. The two agree on every deck of up to thirteen cards, and with fourteen cards the
  fixed-width run overflows.
\<close>

subsection \<open>Errors, integer widths, arrays, loops\<close>

datatype error = OutOfBounds | DivisionByZero | IntegerOverflow | AssertionFailed

datatype arith = Mathematical | FixedWidth

definition INT_MIN :: int where
  "INT_MIN = - (2 ^ 31)"

definition INT_MAX :: int where
  "INT_MAX = 2 ^ 31 - 1"

definition LONG_MIN :: int where
  "LONG_MIN = - (2 ^ 63)"

definition LONG_MAX :: int where
  "LONG_MAX = 2 ^ 63 - 1"

definition int_result :: "arith \<Rightarrow> int \<Rightarrow> error + int" where
  \<comment> \<open>the value of an arithmetic expression of type \<^verbatim>\<open>int\<close>\<close>
  "int_result a v =
     (if a = FixedWidth \<and> (v < INT_MIN \<or> INT_MAX < v) then Inl IntegerOverflow else Inr v)"

definition long_result :: "arith \<Rightarrow> int \<Rightarrow> error + int" where
  \<comment> \<open>the value of an arithmetic expression of type \<^verbatim>\<open>long\<close>\<close>
  "long_result a v =
     (if a = FixedWidth \<and> (v < LONG_MIN \<or> LONG_MAX < v) then Inl IntegerOverflow else Inr v)"

definition ulong_of :: "arith \<Rightarrow> int \<Rightarrow> int" where
  \<comment> \<open>conversion to \<^verbatim>\<open>unsigned long\<close>\<close>
  "ulong_of a v = (if a = FixedWidth then v mod 2 ^ 64 else v)"

definition c_div :: "int \<Rightarrow> int \<Rightarrow> int" where
  \<comment> \<open>C's \<^verbatim>\<open>/\<close> on integers truncates towards zero\<close>
  "c_div a b = (if (a < 0) = (b < 0) then \<bar>a\<bar> div \<bar>b\<bar> else - (\<bar>a\<bar> div \<bar>b\<bar>))"

definition c_mod :: "int \<Rightarrow> int \<Rightarrow> int" where
  \<comment> \<open>C's \<^verbatim>\<open>%\<close>: the remainder of the truncating division\<close>
  "c_mod a b = a - b * c_div a b"

definition then_do :: "error + 'a \<Rightarrow> ('a \<Rightarrow> error + 'b) \<Rightarrow> error + 'b" where
  \<comment> \<open>sequencing: the first failure ends the run\<close>
  "then_do r f = (case r of Inl e \<Rightarrow> Inl e | Inr v \<Rightarrow> f v)"

definition array_get :: "'a list \<Rightarrow> int \<Rightarrow> error + 'a" where
  "array_get xs i = (if 0 \<le> i \<and> i < int (length xs) then Inr (xs ! nat i) else Inl OutOfBounds)"

definition array_set :: "'a list \<Rightarrow> int \<Rightarrow> 'a \<Rightarrow> error + 'a list" where
  "array_set xs i v =
     (if 0 \<le> i \<and> i < int (length xs) then Inr (xs[nat i := v]) else Inl OutOfBounds)"

definition matrix_get :: "'a list list \<Rightarrow> int \<Rightarrow> int \<Rightarrow> error + 'a" where
  \<comment> \<open>\<^verbatim>\<open>matrix[r][c]\<close> as a value\<close>
  "matrix_get m r c = then_do (array_get m r) (\<lambda>row. array_get row c)"

definition matrix_set :: "'a list list \<Rightarrow> int \<Rightarrow> int \<Rightarrow> 'a \<Rightarrow> error + 'a list list" where
  \<comment> \<open>\<^verbatim>\<open>matrix[r][c] = v\<close>\<close>
  "matrix_set m r c v =
     then_do (array_get m r) (\<lambda>row. then_do (array_set row c v) (\<lambda>row'. array_set m r row'))"

function for_loop :: "int \<Rightarrow> int \<Rightarrow> (int \<Rightarrow> 's \<Rightarrow> error + 's) \<Rightarrow> 's \<Rightarrow> error + 's" where
  \<comment> \<open>\<^verbatim>\<open>for (int i = ...; i < n; i++) body\<close>, the state threaded through\<close>
  "for_loop i n body s =
     (if i < n
      then (case body i s of Inl e \<Rightarrow> Inl e | Inr s' \<Rightarrow> for_loop (i + 1) n body s')
      else Inr s)"
  by pat_completeness auto
termination
  by (relation "measure (\<lambda>(i, n, body, s). nat (n - i))") auto

function for_down :: "int \<Rightarrow> (int \<Rightarrow> 's \<Rightarrow> error + 's) \<Rightarrow> 's \<Rightarrow> error + 's" where
  \<comment> \<open>\<^verbatim>\<open>for (int n = ...; n >= 0; n--) body\<close>\<close>
  "for_down n body s =
     (if 0 \<le> n
      then (case body n s of Inl e \<Rightarrow> Inl e | Inr s' \<Rightarrow> for_down (n - 1) body s')
      else Inr s)"
  by pat_completeness auto
termination
  by (relation "measure (\<lambda>(n, body, s). nat (n + 1))") auto

declare for_loop.simps [simp del]
declare for_down.simps [simp del]

subsection \<open>GMP rationals\<close>

definition mpq_set_si :: "int \<Rightarrow> int \<Rightarrow> error + rat" where
  \<comment> \<open>\<^verbatim>\<open>mpq_set_si(q, num, den); mpq_canonicalize(q)\<close>: a zero denominator is GMP's division by
      zero\<close>
  "mpq_set_si num den = (if den = 0 then Inl DivisionByZero else Inr (Fract num den))"

definition mpq_numref :: "rat \<Rightarrow> int" where
  "mpq_numref q = fst (quotient_of q)"

definition mpq_denref :: "rat \<Rightarrow> int" where
  "mpq_denref q = snd (quotient_of q)"

definition mpz_get_ui :: "arith \<Rightarrow> int \<Rightarrow> int" where
  \<comment> \<open>the absolute value as an \<^verbatim>\<open>unsigned long\<close>: in 64 bits, its least significant bits\<close>
  "mpz_get_ui a z = ulong_of a \<bar>z\<bar>"

subsection \<open>Allocation\<close>

definition createMatrix :: "int \<Rightarrow> int list list" where
  \<comment> \<open>\<open>size - 1\<close> zeroed rows, row \<open>i\<close> of \<open>size - i\<close> entries; no row at all for \<open>size \<le> 1\<close>\<close>
  "createMatrix size' = map (\<lambda>i. replicate (nat (size' - i)) 0) [0..size' - 2]"

definition getLengthOfProbabilities :: "int \<Rightarrow> int" where
  "getLengthOfProbabilities size' = size' - 1"

definition createProbabilities :: "int \<Rightarrow> rat list" where
  "createProbabilities size' = replicate (nat (getLengthOfProbabilities size')) 0"

definition createProbabilitiesResult :: "int \<Rightarrow> int list" where
  "createProbabilitiesResult size' = replicate (nat (getLengthOfProbabilities size')) 0"

definition getLengthOfPermutations :: "int \<Rightarrow> int" where
  "getLengthOfPermutations size' = size' - 2"

definition createPermutations :: "int \<Rightarrow> int list" where
  "createPermutations size' = replicate (nat (getLengthOfPermutations size')) 0"

subsection \<open>The path-count table\<close>

definition initialiseFirstStage :: "int list list \<Rightarrow> int \<Rightarrow> int \<Rightarrow> error + int list list" where
  "initialiseFirstStage matrix size' numberLower =
     (let numberHigher = size' - numberLower;
          (k, l) = (if numberHigher \<ge> numberLower then (numberLower, size') else (0, numberLower))
      in for_loop k l (\<lambda>i m. matrix_set m 0 i 1) matrix)"

definition getNumberCardsLeftAfterDealing :: "int \<Rightarrow> int \<Rightarrow> int" where
  "getNumberCardsLeftAfterDealing size' stage = size' - (stage + 1)"

definition getNumberPathsLeadingTo ::
  "arith \<Rightarrow> int list list \<Rightarrow> int \<Rightarrow> int \<Rightarrow> int \<Rightarrow> error + int" where
  "getNumberPathsLeadingTo a matrix size' stage numberLower =
     (let previousStage = stage - 1;
          numberCardsLeftBeforeDealing = getNumberCardsLeftAfterDealing size' previousStage;
          limit = c_div (numberCardsLeftBeforeDealing + 1) 2;
          (k, l) =
            (if c_mod numberCardsLeftBeforeDealing 2 = 0
             then (if numberLower \<le> limit
                   then (numberLower + 1, limit + 1)
                   else (limit + 1, numberLower + 1))
             else (if numberLower < limit
                   then (numberLower + 1, limit)
                   else if numberLower = limit
                   then (limit, limit + 1)
                   else (limit, numberLower + 1)));
          add = (\<lambda>i sum. then_do (matrix_get matrix previousStage i)
                                  (\<lambda>v. int_result a (sum + v)))
      in then_do (for_loop 0 k add 0)
           (\<lambda>sum. for_loop l (numberCardsLeftBeforeDealing + 1) add sum))"

definition initialiseStage :: "arith \<Rightarrow> int list list \<Rightarrow> int \<Rightarrow> int \<Rightarrow> error + int list list" where
  "initialiseStage a matrix size' stage =
     (let numberCardsLeft = getNumberCardsLeftAfterDealing size' stage
      in for_loop 0 (numberCardsLeft + 1)
           (\<lambda>i m. then_do (getNumberPathsLeadingTo a m size' stage i)
                           (\<lambda>v. matrix_set m stage i v))
           matrix)"

definition calculateMatrix :: "arith \<Rightarrow> int list list \<Rightarrow> int \<Rightarrow> int \<Rightarrow> error + int list list" where
  "calculateMatrix a matrix size' numberPlayable =
     then_do (initialiseFirstStage matrix size' numberPlayable)
       (\<lambda>m. for_loop 1 (size' - 1) (\<lambda>i m'. initialiseStage a m' size' i) m)"

subsection \<open>The permutation table\<close>

definition getNumberShuffles :: "int list \<Rightarrow> int \<Rightarrow> error + int" where
  "getNumberShuffles permutations size' =
     (let lengthOfPermutations = getLengthOfPermutations size'
      in array_get permutations (lengthOfPermutations - 1))"

definition calculatePermutations :: "arith \<Rightarrow> int list \<Rightarrow> int \<Rightarrow> error + int list" where
  "calculatePermutations a permutations size' =
     (let lengthOfPermutations = getLengthOfPermutations size'
      in if size' > 0
         then then_do (int_result a (size' * (size' - 1)))
                (\<lambda>p0. then_do (array_set permutations 0 p0)
                  (\<lambda>perms. for_loop 1 lengthOfPermutations
                     (\<lambda>i ps. then_do (array_get ps (i - 1))
                        (\<lambda>prev. then_do (long_result a (prev * ((size' - i) - 1)))
                          (\<lambda>v. array_set ps i v)))
                     perms))
         else Inr permutations)"

subsection \<open>Probabilities\<close>

definition numberFailingCards :: "int \<Rightarrow> int \<Rightarrow> int" where
  "numberFailingCards numberCardsLeft numberLower =
     (let numberHigher = (numberCardsLeft - numberLower) - 1
      in if numberHigher \<ge> numberLower then numberLower else numberHigher)"

definition calculateInitialProbabilities ::
  "arith \<Rightarrow> int list list \<Rightarrow> rat list \<Rightarrow> int list \<Rightarrow> int \<Rightarrow> error + rat list" where
  "calculateInitialProbabilities a matrix probabilities permutations size' =
     for_loop 0 (size' - 2)
       (\<lambda>n probs.
          let numberCardsLeft = size' - n
          in then_do
               (for_loop 0 numberCardsLeft
                  (\<lambda>numberLower sum.
                     then_do (matrix_get matrix n numberLower)
                       (\<lambda>v. then_do
                          (int_result a (v * numberFailingCards numberCardsLeft numberLower))
                          (\<lambda>p. long_result a (sum + p))))
                  0)
               (\<lambda>sum. then_do (array_get permutations n)
                  (\<lambda>d. then_do (mpq_set_si sum (ulong_of a d))
                    (\<lambda>q. array_set probs n q))))
       probabilities"

definition calculateFinalProbability ::
  "arith \<Rightarrow> int list list \<Rightarrow> rat list \<Rightarrow> int list \<Rightarrow> int \<Rightarrow> error + rat list" where
  "calculateFinalProbability a matrix probabilities permutations size' =
     (let lengthOfProbabilities = getLengthOfProbabilities size'
      in then_do (matrix_get matrix (size' - 2) 0)
           (\<lambda>x. then_do (matrix_get matrix (size' - 2) 1)
             (\<lambda>y. then_do (int_result a (x + y))
               (\<lambda>sum. then_do (getNumberShuffles permutations size')
                 (\<lambda>numberShuffles. then_do (mpq_set_si sum (ulong_of a numberShuffles))
                   (\<lambda>q. array_set probabilities (lengthOfProbabilities - 1) q))))))"

definition calculateInternalProbabilities ::
  "arith \<Rightarrow> int list list \<Rightarrow> rat list \<Rightarrow> int list \<Rightarrow> int \<Rightarrow> error + rat list" where
  "calculateInternalProbabilities a matrix probabilities permutations size' =
     then_do (calculateInitialProbabilities a matrix probabilities permutations size')
       (\<lambda>probs. calculateFinalProbability a matrix probs permutations size')"

definition accumulateProbabilities :: "rat list \<Rightarrow> int \<Rightarrow> error + rat list" where
  "accumulateProbabilities probabilities size' =
     (let lengthOfProbabilities = getLengthOfProbabilities size'
      in then_do
           (for_down (lengthOfProbabilities - 1)
              (\<lambda>n (probs, sum).
                 then_do (array_get probs n)
                   (\<lambda>oldProbability. then_do (array_set probs n (oldProbability + sum))
                     (\<lambda>probs'. Inr (probs', sum + oldProbability))))
              (probabilities, 0))
           (\<lambda>(probs, sum). Inr probs))"

definition convertToNumeratorsAndDenominators ::
  "arith \<Rightarrow> int list \<Rightarrow> int list \<Rightarrow> rat list \<Rightarrow> int \<Rightarrow> error + int list \<times> int list" where
  "convertToNumeratorsAndDenominators a numeratorsResult denominatorsResult probabilities size' =
     (let lengthOfProbabilities = getLengthOfProbabilities size'
      in for_loop 0 lengthOfProbabilities
           (\<lambda>i (ns, ds).
              then_do (array_get probabilities i)
                (\<lambda>q. let numerator = mpz_get_ui a (mpq_numref q);
                          denominator = mpz_get_ui a (mpq_denref q)
                      in then_do (array_set ns i numerator)
                           (\<lambda>ns'. then_do (array_set ds i denominator)
                             (\<lambda>ds'. Inr (ns', ds')))))
           (numeratorsResult, denominatorsResult))"

definition calculateProbabilities ::
  "arith \<Rightarrow> int list \<Rightarrow> int list \<Rightarrow> int \<Rightarrow> int \<Rightarrow> error + int list \<times> int list" where
  \<comment> \<open>the two caller-allocated output arrays go in and come back updated\<close>
  "calculateProbabilities a numeratorsResult denominatorsResult size' numberLower =
     (let matrix = createMatrix size';
          probabilities = createProbabilities size';
          permutations = createPermutations size'
      in then_do (calculateMatrix a matrix size' numberLower)
           (\<lambda>matrix. then_do (calculatePermutations a permutations size')
             (\<lambda>permutations.
                then_do (calculateInternalProbabilities a matrix probabilities permutations size')
                  (\<lambda>probabilities. then_do (accumulateProbabilities probabilities size')
                    (\<lambda>probabilities.
                       convertToNumeratorsAndDenominators a numeratorsResult denominatorsResult
                         probabilities size')))))"

subsection \<open>The driver: one query of \<^verbatim>\<open>main\<close>\<close>

text \<open>
  One pass through the loop of \<^verbatim>\<open>main\<close> after a line \<open>size numberLower\<close> has been read. The two
  output arrays are allocated once, with \<open>createProbabilitiesResult MAX_SIZE\<close>, and reused by
  every query. What \<^verbatim>\<open>printOdds\<close> prints is floating point and is left out: the model returns
  the pairs that are passed to it.
\<close>

definition MAX_SIZE :: int where
  "MAX_SIZE = 13"

definition main_query ::
  "arith \<Rightarrow> int list \<times> int list \<Rightarrow> int \<Rightarrow> int
   \<Rightarrow> error + (int list \<times> int list) \<times> (int \<times> int) list" where
  "main_query a results size' numberLower =
     (case results of (numeratorsResult, denominatorsResult) \<Rightarrow>
        if size' \<le> MAX_SIZE
        then (let lengthOfProbabilities = getLengthOfProbabilities size'
              in then_do
                   (calculateProbabilities a numeratorsResult denominatorsResult size' numberLower)
                   (\<lambda>(ns, ds).
                      then_do
                        (for_loop 0 lengthOfProbabilities
                           (\<lambda>i printed. then_do (array_get ns i)
                              (\<lambda>numerator. then_do (array_get ds i)
                                (\<lambda>denominator. Inr (printed @ [(numerator, denominator)]))))
                           [])
                        (\<lambda>printed. Inr ((ns, ds), printed))))
        else Inl AssertionFailed)"

subsection \<open>Closed forms of the loops, and when the fixed-width reading succeeds\<close>

definition fits_int :: "arith \<Rightarrow> int \<Rightarrow> bool" where
  "fits_int a v \<longleftrightarrow> (a = FixedWidth \<longrightarrow> INT_MIN \<le> v \<and> v \<le> INT_MAX)"

definition fits_long :: "arith \<Rightarrow> int \<Rightarrow> bool" where
  "fits_long a v \<longleftrightarrow> (a = FixedWidth \<longrightarrow> LONG_MIN \<le> v \<and> v \<le> LONG_MAX)"

definition first_row :: "int \<Rightarrow> int \<Rightarrow> int list" where
  "first_row size' numberLower =
     map (\<lambda>i. if (if size' - numberLower \<ge> numberLower then numberLower \<le> i else i < numberLower)
               then 1 else 0)
       [0..size' - 1]"

definition cut_points :: "int \<Rightarrow> int \<Rightarrow> int \<times> int" where
  \<comment> \<open>the \<open>k\<close> and \<open>l\<close> of \<open>getNumberPathsLeadingTo\<close>, from the number of cards left before
      dealing and the target\<close>
  "cut_points cardsBefore numberLower =
     (let limit = (cardsBefore + 1) div 2
      in if cardsBefore mod 2 = 0
         then (if numberLower \<le> limit
               then (numberLower + 1, limit + 1)
               else (limit + 1, numberLower + 1))
         else (if numberLower < limit
               then (numberLower + 1, limit)
               else if numberLower = limit
               then (limit, limit + 1)
               else (limit, numberLower + 1)))"

definition paths_from :: "int \<Rightarrow> int \<Rightarrow> int list \<Rightarrow> int" where
  "paths_from cardsBefore numberLower prev =
     (\<Sum>i\<in>{0..<fst (cut_points cardsBefore numberLower)}. prev ! nat i)
     + (\<Sum>i\<in>{snd (cut_points cardsBefore numberLower)..cardsBefore}. prev ! nat i)"

definition next_row :: "int \<Rightarrow> int list \<Rightarrow> int list" where
  "next_row cardsBefore prev = map (\<lambda>t. paths_from cardsBefore t prev) [0..cardsBefore - 1]"

fun table_row :: "int \<Rightarrow> int \<Rightarrow> nat \<Rightarrow> int list" where
  "table_row size' numberLower 0 = first_row size' numberLower"
| "table_row size' numberLower (Suc s) =
     next_row (size' - int (Suc s)) (table_row size' numberLower s)"

definition table :: "int \<Rightarrow> int \<Rightarrow> int list list" where
  "table size' numberLower = map (table_row size' numberLower) [0..<nat (size' - 1)]"

definition table_fits :: "arith \<Rightarrow> int \<Rightarrow> int \<Rightarrow> bool" where
  "table_fits a size' numberLower \<longleftrightarrow>
     (\<forall>row\<in>set (table size' numberLower). \<forall>v\<in>set row. fits_int a v)"

text \<open>
  The cut points as the specification words them: \<open>limit = ceil(before / 2)\<close>, a case split on
  the parity of \<open>before\<close> and on the comparison of the target with \<open>limit\<close>.
\<close>

definition spec_cut_points :: "int \<Rightarrow> int \<Rightarrow> int \<times> int" where
  "spec_cut_points cardsBefore t =
     (let limit = \<lceil>real_of_int cardsBefore / 2\<rceil>
      in if even cardsBefore
         then (if t \<le> limit then (t + 1, limit + 1) else (limit + 1, t + 1))
         else (if t < limit then (t + 1, limit)
               else if t = limit then (limit, limit + 1)
               else (limit, t + 1)))"

fun deals :: "int \<Rightarrow> nat \<Rightarrow> int" where
  \<comment> \<open>the number of ordered deals of \<open>k\<close> cards from a deck of \<open>n\<close>\<close>
  "deals n 0 = 1"
| "deals n (Suc k) = deals n k * (n - int k)"

definition permutation_table :: "int \<Rightarrow> int list" where
  "permutation_table size' = map (\<lambda>i. deals size' (i + 2)) [0..<nat (size' - 2)]"

definition permutations_fit :: "arith \<Rightarrow> int \<Rightarrow> bool" where
  "permutations_fit a size' \<longleftrightarrow>
     fits_int a (size' * (size' - 1)) \<and> (\<forall>v\<in>set (permutation_table size'). fits_long a v)"

definition fail_count :: "int \<Rightarrow> int list \<Rightarrow> int" where
  \<comment> \<open>the inner sum of \<open>calculateInitialProbabilities\<close> over one row\<close>
  "fail_count numberCardsLeft row =
     (\<Sum>numberLower\<in>{0..<numberCardsLeft}.
        row ! nat numberLower * numberFailingCards numberCardsLeft numberLower)"

definition stage_probability :: "int \<Rightarrow> int \<Rightarrow> nat \<Rightarrow> rat" where
  \<comment> \<open>entry \<open>n\<close> of the vector before the accumulation\<close>
  "stage_probability size' numberLower n =
     (if int n < size' - 2
      then Fract (fail_count (size' - int n) (table_row size' numberLower n)) (deals size' (n + 2))
      else Fract (table_row size' numberLower n ! 0 + table_row size' numberLower n ! 1)
             (deals size' (n + 1)))"

definition internal_probabilities :: "int \<Rightarrow> int \<Rightarrow> rat list" where
  "internal_probabilities size' numberLower =
     map (stage_probability size' numberLower) [0..<nat (size' - 1)]"

definition probabilities_fit :: "arith \<Rightarrow> int \<Rightarrow> int \<Rightarrow> bool" where
  "probabilities_fit a size' numberLower \<longleftrightarrow>
     (\<forall>n\<in>{0..<size' - 2}.
        (\<forall>j\<in>{0..<size' - n}.
           fits_int a (table_row size' numberLower (nat n) ! nat j
                       * numberFailingCards (size' - n) j))
        \<and> fits_long a (fail_count (size' - n) (table_row size' numberLower (nat n))))
     \<and> fits_int a (table_row size' numberLower (nat (size' - 2)) ! 0
                   + table_row size' numberLower (nat (size' - 2)) ! 1)"

definition accumulated :: "rat list \<Rightarrow> rat list" where
  \<comment> \<open>entry \<open>n\<close> is the sum of the entries from \<open>n\<close> on\<close>
  "accumulated probs = map (\<lambda>n. sum_list (drop n probs)) [0..<length probs]"

definition exported :: "arith \<Rightarrow> rat list \<Rightarrow> int list \<Rightarrow> int list \<Rightarrow> int list \<times> int list" where
  \<comment> \<open>the output arrays after the numerators and denominators have been written\<close>
  "exported a probs ns ds =
     (map (\<lambda>q. mpz_get_ui a (mpq_numref q)) probs @ drop (length probs) ns,
      map (\<lambda>q. mpz_get_ui a (mpq_denref q)) probs @ drop (length probs) ds)"

definition cumulative_probabilities :: "int \<Rightarrow> int \<Rightarrow> rat list" where
  "cumulative_probabilities size' numberLower =
     accumulated (internal_probabilities size' numberLower)"

definition all_fit :: "arith \<Rightarrow> int \<Rightarrow> int \<Rightarrow> bool" where
  "all_fit a size' numberLower \<longleftrightarrow>
     table_fits a size' numberLower \<and> permutations_fit a size'
     \<and> probabilities_fit a size' numberLower"

subsection \<open>Auxiliary notions of the proofs\<close>

definition reaches :: "int \<Rightarrow> int \<Rightarrow> int \<Rightarrow> bool" where
  \<comment> \<open>with \<open>before\<close> cards left, \<open>j\<close> of them lower than the last one, the predicted side holds a
      card that leaves \<open>t\<close> cards lower than itself\<close>
  "reaches cardsBefore j t \<longleftrightarrow> (if cardsBefore - j \<ge> j then j \<le> t else t < j)"

definition survival :: "int \<Rightarrow> int \<Rightarrow> nat \<Rightarrow> rat" where
  \<comment> \<open>the paths counted in row \<open>n\<close>, over all ordered deals of \<open>n + 1\<close> cards\<close>
  "survival size' numberLower n =
     Fract (sum_list (table_row size' numberLower n)) (deals size' (n + 1))"

fun extend_table :: "int \<Rightarrow> int list \<Rightarrow> nat \<Rightarrow> int list list" where
  \<comment> \<open>the next \<open>k\<close> rows, each from the one before it\<close>
  "extend_table b prev 0 = []"
| "extend_table b prev (Suc k) = next_row b prev # extend_table (b - 1) (next_row b prev) k"

definition product_fits :: "arith \<Rightarrow> int \<Rightarrow> int list \<Rightarrow> int \<Rightarrow> bool" where
  "product_fits a numberCardsLeft row j \<longleftrightarrow>
     fits_int a (row ! nat j * numberFailingCards numberCardsLeft j)"

definition stage_fits :: "arith \<Rightarrow> int \<Rightarrow> int list list \<Rightarrow> int \<Rightarrow> bool" where
  "stage_fits a size' m n \<longleftrightarrow>
     list_all (product_fits a (size' - n) (m ! nat n)) [0..size' - n - 1]
     \<and> fits_long a (fail_count (size' - n) (m ! nat n))"

definition fits_check :: "arith \<Rightarrow> int \<Rightarrow> int list list \<Rightarrow> bool" where
  \<comment> \<open>the side conditions of the fixed-width reading, on the table as a value\<close>
  "fits_check a size' m \<longleftrightarrow>
     list_all (list_all (fits_int a)) m
     \<and> list_all (stage_fits a size' m) [0..size' - 3]
     \<and> fits_int a (m ! nat (size' - 2) ! 0 + m ! nat (size' - 2) ! 1)"

definition fits_up_to :: "arith \<Rightarrow> int \<Rightarrow> int \<Rightarrow> bool" where
  "fits_up_to a size' numberLower \<longleftrightarrow>
     fits_check a size'
       (first_row size' numberLower
        # extend_table (size' - 1) (first_row size' numberLower) (nat (size' - 2)))"

definition rank_in :: "int set \<Rightarrow> int \<Rightarrow> nat" where
  \<comment> \<open>how many cards of \<open>R\<close> lie below \<open>d\<close>\<close>
  "rank_in R d = card {r \<in> R. r < d}"

subsection \<open>The game on a labelled deck, by exhaustive enumeration\<close>

text \<open>
  The definitions of this part are not taken from \<^verbatim>\<open>prob.c\<close>: they follow the words of the
  specification, so that the table and the fractions of the code can be compared with them.
  The deck holds the cards \<open>0, \<dots>, size - 1\<close>, ordered by rank; in the initial state the last
  played card lies between the cards \<open>numberLower - 1\<close> and \<open>numberLower\<close>, so that exactly
  \<open>numberLower\<close> cards of the deck are lower than it. The predictor names the side that holds
  at least as many cards as the other, ``higher'' on a tie, and a deal is correct when the
  card dealt is on that side. A path is an ordered deal of distinct cards of the deck.
\<close>

definition deck :: "int \<Rightarrow> int set" where
  \<comment> \<open>the cards still in the deck, labelled by rank\<close>
  "deck size' = {0..<size'}"

definition remaining :: "int \<Rightarrow> int list \<Rightarrow> int set" where
  "remaining size' dealt = deck size' - set dealt"

definition last_played :: "int \<Rightarrow> int list \<Rightarrow> int" where
  \<comment> \<open>the card the next one is compared with; the card played before the initial state sits
      just below card \<open>numberLower\<close>\<close>
  "last_played numberLower dealt = (if dealt = [] then numberLower else last dealt)"

definition lower_count :: "int \<Rightarrow> int \<Rightarrow> int list \<Rightarrow> int" where
  "lower_count size' numberLower dealt =
     int (card {r \<in> remaining size' dealt. r < last_played numberLower dealt})"

definition higher_count :: "int \<Rightarrow> int \<Rightarrow> int list \<Rightarrow> int" where
  "higher_count size' numberLower dealt =
     int (card {r \<in> remaining size' dealt. last_played numberLower dealt \<le> r})"

definition predicts_higher :: "int \<Rightarrow> int \<Rightarrow> int list \<Rightarrow> bool" where
  "predicts_higher size' numberLower dealt \<longleftrightarrow>
     higher_count size' numberLower dealt \<ge> lower_count size' numberLower dealt"

definition correct_deal :: "int \<Rightarrow> int \<Rightarrow> int list \<Rightarrow> int \<Rightarrow> bool" where
  \<comment> \<open>the card \<open>d\<close>, dealt after \<open>dealt\<close>, is on the side the predictor named\<close>
  "correct_deal size' numberLower dealt d \<longleftrightarrow>
     (if predicts_higher size' numberLower dealt
      then last_played numberLower dealt \<le> d
      else d < last_played numberLower dealt)"

definition always_correct :: "int \<Rightarrow> int \<Rightarrow> int list \<Rightarrow> bool" where
  "always_correct size' numberLower ds \<longleftrightarrow>
     (\<forall>i<length ds. correct_deal size' numberLower (take i ds) (ds ! i))"

definition ordered_deals :: "int \<Rightarrow> nat \<Rightarrow> int list set" where
  "ordered_deals size' k = {ds. length ds = k \<and> distinct ds \<and> set ds \<subseteq> deck size'}"

definition brute_force_paths :: "int \<Rightarrow> int \<Rightarrow> nat \<Rightarrow> int \<Rightarrow> int list set" where
  \<comment> \<open>the ordered deals of \<open>k\<close> cards at each of which the predictor was right, and after which
      \<open>t\<close> cards are lower than the last one\<close>
  "brute_force_paths size' numberLower k t =
     {ds \<in> ordered_deals size' k.
        always_correct size' numberLower ds \<and> lower_count size' numberLower ds = t}"

definition correct_deals :: "int \<Rightarrow> int \<Rightarrow> nat \<Rightarrow> int list set" where
  \<comment> \<open>the ordered deals of \<open>k\<close> cards at each of which the predictor was right\<close>
  "correct_deals size' numberLower k =
     {ds \<in> ordered_deals size' k. always_correct size' numberLower ds}"

definition brute_force_ratio :: "int \<Rightarrow> int \<Rightarrow> nat \<Rightarrow> rat" where
  \<comment> \<open>among all orders in which the whole deck can be dealt, the share of those in which the
      predictor is right at each of the first \<open>n + 1\<close> deals\<close>
  "brute_force_ratio size' numberLower n =
     Fract (int (card {p \<in> ordered_deals size' (nat size').
                       always_correct size' numberLower (take (Suc n) p)}))
           (int (card (ordered_deals size' (nat size'))))"

definition enumerate_deals :: "int \<Rightarrow> nat \<Rightarrow> int list list" where
  \<comment> \<open>the exhaustive enumeration: every list of \<open>k\<close> cards of the deck, those with a repeated
      card dropped\<close>
  "enumerate_deals size' k = filter distinct (List.n_lists k [0..size' - 1])"

section \<open>Basic facts about sequencing, arrays and loops\<close>

lemma then_do_Inr [simp]: "then_do (Inr v) f = f v"
  by (simp add: then_do_def)

lemma then_do_Inl [simp]: "then_do (Inl e) f = Inl e"
  by (simp add: then_do_def)

lemma array_get_in [simp]:
  "0 \<le> i \<Longrightarrow> i < int (length xs) \<Longrightarrow> array_get xs i = Inr (xs ! nat i)"
  by (simp add: array_get_def)

lemma array_get_out:
  "i < 0 \<or> int (length xs) \<le> i \<Longrightarrow> array_get xs i = Inl OutOfBounds"
  by (auto simp: array_get_def)

lemma array_set_in [simp]:
  "0 \<le> i \<Longrightarrow> i < int (length xs) \<Longrightarrow> array_set xs i v = Inr (xs[nat i := v])"
  by (simp add: array_set_def)

lemma array_set_out:
  "i < 0 \<or> int (length xs) \<le> i \<Longrightarrow> array_set xs i v = Inl OutOfBounds"
  by (auto simp: array_set_def)

lemma matrix_get_in:
  "0 \<le> r \<Longrightarrow> r < int (length m) \<Longrightarrow> 0 \<le> c \<Longrightarrow> c < int (length (m ! nat r)) \<Longrightarrow>
   matrix_get m r c = Inr (m ! nat r ! nat c)"
  by (simp add: matrix_get_def)

lemma matrix_set_in:
  "0 \<le> r \<Longrightarrow> r < int (length m) \<Longrightarrow> 0 \<le> c \<Longrightarrow> c < int (length (m ! nat r)) \<Longrightarrow>
   matrix_set m r c v = Inr (m[nat r := (m ! nat r)[nat c := v]])"
  by (simp add: matrix_set_def)

lemma for_loop_done [simp]: "\<not> i < n \<Longrightarrow> for_loop i n body s = Inr s"
  by (simp add: for_loop.simps)

lemma for_loop_step:
  "i < n \<Longrightarrow> for_loop i n body s = then_do (body i s) (for_loop (i + 1) n body)"
  by (subst for_loop.simps) (simp add: then_do_def)

lemma for_loop_invariant:
  assumes "I i s" and "i \<le> n"
    and "\<And>j t. i \<le> j \<Longrightarrow> j < n \<Longrightarrow> I j t \<Longrightarrow> \<exists>t'. body j t = Inr t' \<and> I (j + 1) t'"
  shows "\<exists>t. for_loop i n body s = Inr t \<and> I n t"
  using assms
proof (induction "nat (n - i)" arbitrary: i s)
  case 0
  then have "i = n" by simp
  with 0 show ?case by simp
next
  case (Suc d)
  then have lt: "i < n" by linarith
  from Suc.prems(3)[OF order_refl lt Suc.prems(1)]
  obtain t' where t': "body i s = Inr t'" "I (i + 1) t'" by blast
  have "\<exists>t. for_loop (i + 1) n body t' = Inr t \<and> I n t"
  proof (rule Suc.hyps(1))
    show "d = nat (n - (i + 1))" using Suc.hyps(2) by linarith
    show "I (i + 1) t'" by (rule t')
    show "i + 1 \<le> n" using lt by simp
    show "\<And>j t. i + 1 \<le> j \<Longrightarrow> j < n \<Longrightarrow> I j t \<Longrightarrow> \<exists>t'. body j t = Inr t' \<and> I (j + 1) t'"
      using Suc.prems(3) by simp
  qed
  then show ?case using lt t' by (simp add: for_loop_step)
qed

lemma for_loop_fails:
  assumes "I i s" and "i \<le> j0" and "j0 < n"
    and "\<And>j t. i \<le> j \<Longrightarrow> j < j0 \<Longrightarrow> I j t \<Longrightarrow> \<exists>t'. body j t = Inr t' \<and> I (j + 1) t'"
    and "\<And>t. I j0 t \<Longrightarrow> body j0 t = Inl e"
  shows "for_loop i n body s = Inl e"
  using assms
proof (induction "nat (j0 - i)" arbitrary: i s)
  case 0
  then have "i = j0" by simp
  with 0 show ?case by (simp add: for_loop_step)
next
  case (Suc d)
  then have lt: "i < j0" by linarith
  from Suc.prems(4)[OF order_refl lt Suc.prems(1)]
  obtain t' where t': "body i s = Inr t'" "I (i + 1) t'" by blast
  have "for_loop (i + 1) n body t' = Inl e"
  proof (rule Suc.hyps(1))
    show "d = nat (j0 - (i + 1))" using Suc.hyps(2) by linarith
    show "I (i + 1) t'" by (rule t')
    show "i + 1 \<le> j0" using lt by simp
    show "j0 < n" by (rule Suc.prems(3))
    show "\<And>j t. i + 1 \<le> j \<Longrightarrow> j < j0 \<Longrightarrow> I j t \<Longrightarrow> \<exists>t'. body j t = Inr t' \<and> I (j + 1) t'"
      using Suc.prems(4) by simp
    show "\<And>t. I j0 t \<Longrightarrow> body j0 t = Inl e" by (rule Suc.prems(5))
  qed
  then show ?case using lt t' Suc.prems(3) by (simp add: for_loop_step)
qed

lemma for_down_done [simp]: "n < 0 \<Longrightarrow> for_down n body s = Inr s"
  by (simp add: for_down.simps)

lemma for_down_step:
  "0 \<le> n \<Longrightarrow> for_down n body s = then_do (body n s) (for_down (n - 1) body)"
  by (subst for_down.simps) (simp add: then_do_def)

lemma for_down_invariant:
  assumes "I n s" and "-1 \<le> n"
    and "\<And>j t. 0 \<le> j \<Longrightarrow> j \<le> n \<Longrightarrow> I j t \<Longrightarrow> \<exists>t'. body j t = Inr t' \<and> I (j - 1) t'"
  shows "\<exists>t. for_down n body s = Inr t \<and> I (-1) t"
  using assms
proof (induction "nat (n + 1)" arbitrary: n s)
  case 0
  then have "n = -1" by simp
  with 0 show ?case by simp
next
  case (Suc d)
  then have ge: "0 \<le> n" by linarith
  from Suc.prems(3)[OF ge order_refl Suc.prems(1)]
  obtain t' where t': "body n s = Inr t'" "I (n - 1) t'" by blast
  have "\<exists>t. for_down (n - 1) body t' = Inr t \<and> I (-1) t"
  proof (rule Suc.hyps(1))
    show "d = nat (n - 1 + 1)" using Suc.hyps(2) by linarith
    show "I (n - 1) t'" by (rule t')
    show "-1 \<le> n - 1" using ge by simp
    show "\<And>j t. 0 \<le> j \<Longrightarrow> j \<le> n - 1 \<Longrightarrow> I j t \<Longrightarrow> \<exists>t'. body j t = Inr t' \<and> I (j - 1) t'"
      using Suc.prems(3) by simp
  qed
  then show ?case using ge t' by (simp add: for_down_step)
qed

lemma c_div_nonneg [simp]: "0 \<le> a \<Longrightarrow> c_div a 2 = a div 2"
  by (simp add: c_div_def)

lemma c_mod_nonneg [simp]: "0 \<le> a \<Longrightarrow> c_mod a 2 = a mod 2"
  by (simp add: c_mod_def minus_mult_div_eq_mod)

section \<open>The worked scenario: three cards, one of them lower\<close>

lemma worked_first_stage: "initialiseFirstStage (createMatrix 3) 3 1 = Inr [[0, 1, 1], [0, 0]]"
  by code_simp

lemma worked_matrix: "calculateMatrix a (createMatrix 3) 3 1 = Inr [[0, 1, 1], [1, 2]]"
  by (cases a; hypsubst; code_simp)

lemma worked_permutations: "calculatePermutations a (createPermutations 3) 3 = Inr [6]"
  by (cases a; hypsubst; code_simp)

lemma worked_initial:
  "calculateInitialProbabilities a [[0, 1, 1], [1, 2]] (createProbabilities 3) [6] 3 =
   Inr [Fract 1 6, 0]"
  by (cases a; hypsubst; code_simp)

lemma worked_final:
  "calculateFinalProbability a [[0, 1, 1], [1, 2]] [Fract 1 6, 0] [6] 3 =
   Inr [Fract 1 6, Fract 1 2]"
  by (cases a; hypsubst; code_simp)

lemma worked_accumulate:
  "accumulateProbabilities [Fract 1 6, Fract 1 2] 3 = Inr [Fract 2 3, Fract 1 2]"
  by code_simp

lemma worked_convert:
  "convertToNumeratorsAndDenominators a (n0 # n1 # ns) (d0 # d1 # ds) [Fract 2 3, Fract 1 2] 3 =
   Inr (2 # 1 # ns, 3 # 2 # ds)"
  by (cases a)
    (simp_all add: convertToNumeratorsAndDenominators_def getLengthOfProbabilities_def
      for_loop_step mpz_get_ui_def ulong_of_def mpq_numref_def mpq_denref_def quotient_of_Fract
      Rat.normalize_def)

text \<open>
  Claim C2. Called with \<open>size = 3\<close> and \<open>numberLower = 1\<close>, \<open>calculateProbabilities\<close> writes
  exactly two pairs into the output arrays, \<open>(2, 3)\<close> at index 0 and \<open>(1, 2)\<close> at index 1, and
  leaves every later cell as it was. On the way, row 0 of the table is \<open>[0, 1, 1]\<close>, row 1 is
  \<open>[1, 2]\<close>, the permutation table is \<open>[6]\<close>, the fail probability at index 0 is \<open>1/6\<close>, the
  final probability is \<open>1/2\<close>, and the accumulation turns index 0 into \<open>2/3\<close>. This holds in
  both readings of the integer types.
\<close>

theorem worked_scenario:
  "calculateProbabilities a (n0 # n1 # ns) (d0 # d1 # ds) 3 1 = Inr (2 # 1 # ns, 3 # 2 # ds)
   \<and> getLengthOfProbabilities 3 = 2
   \<and> initialiseFirstStage (createMatrix 3) 3 1 = Inr [[0, 1, 1], [0, 0]]
   \<and> calculateMatrix a (createMatrix 3) 3 1 = Inr [[0, 1, 1], [1, 2]]
   \<and> calculatePermutations a (createPermutations 3) 3 = Inr [6]
   \<and> calculateInitialProbabilities a [[0, 1, 1], [1, 2]] (createProbabilities 3) [6] 3 =
       Inr [Fract 1 6, 0]
   \<and> calculateInternalProbabilities a [[0, 1, 1], [1, 2]] (createProbabilities 3) [6] 3 =
       Inr [Fract 1 6, Fract 1 2]
   \<and> accumulateProbabilities [Fract 1 6, Fract 1 2] 3 = Inr [Fract 2 3, Fract 1 2]"
  by (simp add: calculateProbabilities_def calculateInternalProbabilities_def
      getLengthOfProbabilities_def worked_first_stage worked_matrix worked_permutations
      worked_initial worked_final worked_accumulate worked_convert)

section \<open>The table that \<open>calculateMatrix\<close> builds\<close>

lemma int_result_fits [simp]: "fits_int a v \<Longrightarrow> int_result a v = Inr v"
  by (auto simp: int_result_def fits_int_def)

lemma long_result_fits [simp]: "fits_long a v \<Longrightarrow> long_result a v = Inr v"
  by (auto simp: long_result_def fits_long_def)

lemma fits_Mathematical [simp]: "fits_int Mathematical v" "fits_long Mathematical v"
  by (simp_all add: fits_int_def fits_long_def)

lemma fits_int_between:
  "fits_int a lo \<Longrightarrow> fits_int a hi \<Longrightarrow> lo \<le> v \<Longrightarrow> v \<le> hi \<Longrightarrow> fits_int a v"
  by (auto simp: fits_int_def)

lemma fits_long_between:
  "fits_long a lo \<Longrightarrow> fits_long a hi \<Longrightarrow> lo \<le> v \<Longrightarrow> v \<le> hi \<Longrightarrow> fits_long a v"
  by (auto simp: fits_long_def)

lemma fits_zero [simp]: "fits_int a 0" "fits_long a 0"
  by (simp_all add: fits_int_def fits_long_def INT_MIN_def INT_MAX_def LONG_MIN_def LONG_MAX_def)

lemma int_interval_Suc: "i \<le> j \<Longrightarrow> {i..<j + 1} = insert j {i..<j::int}"
  by auto

lemma sum_int_interval_Suc:
  "i \<le> j \<Longrightarrow> (\<Sum>x\<in>{i..<j + 1}. f x) = (\<Sum>x\<in>{i..<j::int}. f x) + (f j :: int)"
  by (simp add: int_interval_Suc)

lemma sum_int_interval_mono:
  assumes "\<And>x. i \<le> x \<Longrightarrow> x < n \<Longrightarrow> 0 \<le> (f x :: int)" and "j \<le> n"
  shows "(\<Sum>x\<in>{i..<j::int}. f x) \<le> (\<Sum>x\<in>{i..<n}. f x)"
  by (rule sum_mono2) (use assms in auto)


lemma add_loop:
  assumes row: "0 \<le> r" "r < int (length m)"
    and rng: "0 \<le> i0" "n \<le> int (length (m ! nat r))"
    and nonneg: "\<And>x. i0 \<le> x \<Longrightarrow> x < n \<Longrightarrow> 0 \<le> m ! nat r ! nat x"
    and fits: "fits_int a acc" "fits_int a (acc + (\<Sum>x\<in>{i0..<n}. m ! nat r ! nat x))"
  shows "for_loop i0 n (\<lambda>i sum. then_do (matrix_get m r i) (\<lambda>v. int_result a (sum + v))) acc
         = Inr (acc + (\<Sum>x\<in>{i0..<n}. m ! nat r ! nat x))"
proof (cases "i0 \<le> n")
  case False
  then show ?thesis by simp
next
  case True
  let ?body = "\<lambda>i sum. then_do (matrix_get m r i) (\<lambda>v. int_result a (sum + v))"
  let ?I = "\<lambda>j t. t = acc + (\<Sum>x\<in>{i0..<j}. m ! nat r ! nat x)"
  have "\<exists>t. for_loop i0 n ?body acc = Inr t \<and> ?I n t"
  proof (rule for_loop_invariant[where I = ?I])
    show "?I i0 acc" by simp
    show "i0 \<le> n" by (rule True)
  next
    fix j t
    assume j: "i0 \<le> j" "j < n" and t: "?I j t"
    have get: "matrix_get m r j = Inr (m ! nat r ! nat j)"
      using row rng j by (simp add: matrix_get_in)
    have next_sum: "t + m ! nat r ! nat j = acc + (\<Sum>x\<in>{i0..<j + 1}. m ! nat r ! nat x)"
      using j t by (simp add: sum_int_interval_Suc)
    have lo: "acc \<le> acc + (\<Sum>x\<in>{i0..<j + 1}. m ! nat r ! nat x)"
    proof -
      have "0 \<le> (\<Sum>x\<in>{i0..<j + 1}. m ! nat r ! nat x)"
        by (rule sum_nonneg) (use j nonneg in auto)
      then show ?thesis by simp
    qed
    have hi: "(\<Sum>x\<in>{i0..<j + 1}. m ! nat r ! nat x) \<le> (\<Sum>x\<in>{i0..<n}. m ! nat r ! nat x)"
      using j nonneg by (intro sum_int_interval_mono) auto
    have "fits_int a (t + m ! nat r ! nat j)"
      unfolding next_sum using fits lo hi by (intro fits_int_between[OF fits]) auto
    then show "\<exists>t'. ?body j t = Inr t' \<and> ?I (j + 1) t'"
      using get next_sum by simp
  qed
  then show ?thesis by auto
qed

lemma cut_points_range:
  assumes "1 \<le> before" "0 \<le> t" "t < before"
  shows "0 \<le> fst (cut_points before t)" "fst (cut_points before t) \<le> before + 1"
    "0 \<le> snd (cut_points before t)" "fst (cut_points before t) \<le> snd (cut_points before t)"
  using assms by (auto simp: cut_points_def Let_def)

lemma getNumberPathsLeadingTo_eq:
  assumes stage: "1 \<le> stage" "stage - 1 < int (length m)"
    and len: "int (length (m ! nat (stage - 1))) = size' - stage + 1"
    and t: "1 \<le> size' - stage" "0 \<le> t" "t < size' - stage"
    and nonneg: "\<And>x. 0 \<le> x \<Longrightarrow> x \<le> size' - stage \<Longrightarrow> 0 \<le> m ! nat (stage - 1) ! nat x"
    and fits: "fits_int a (paths_from (size' - stage) t (m ! nat (stage - 1)))"
  shows "getNumberPathsLeadingTo a m size' stage t
         = Inr (paths_from (size' - stage) t (m ! nat (stage - 1)))"
proof -
  define before where "before = size' - stage"
  define prev where "prev = m ! nat (stage - 1)"
  define k where "k = fst (cut_points before t)"
  define l where "l = snd (cut_points before t)"
  define add where
    "add = (\<lambda>i sum. then_do (matrix_get m (stage - 1) i) (\<lambda>v. int_result a (sum + v)))"
  define S1 where "S1 = (\<Sum>x\<in>{0..<k}. prev ! nat x)"
  define S2 where "S2 = (\<Sum>x\<in>{l..<before + 1}. prev ! nat x)"
  have kl: "0 \<le> k" "k \<le> before + 1" "0 \<le> l"
    using cut_points_range[of before t] t by (simp_all add: k_def l_def before_def)
  have total: "paths_from before t prev = S1 + S2"
    by (simp add: paths_from_def S1_def S2_def k_def l_def
        atLeastLessThanPlusOne_atLeastAtMost_int)
  have S1_nonneg: "0 \<le> S1"
    unfolding S1_def by (rule sum_nonneg) (use nonneg kl in \<open>auto simp: prev_def before_def\<close>)
  have S2_nonneg: "0 \<le> S2"
    unfolding S2_def by (rule sum_nonneg) (use nonneg kl in \<open>auto simp: prev_def before_def\<close>)
  have fits_total: "fits_int a (S1 + S2)"
    using fits total by (simp add: before_def prev_def)
  have fits_S1: "fits_int a S1"
    by (rule fits_int_between[OF fits_zero(1) fits_total]) (use S1_nonneg S2_nonneg in auto)
  have first: "for_loop 0 k add 0 = Inr (0 + S1)"
    unfolding add_def S1_def prev_def
  proof (rule add_loop)
    show "fits_int a (0 + (\<Sum>x\<in>{0..<k}. m ! nat (stage - 1) ! nat x))"
      using fits_S1 by (simp add: S1_def prev_def)
  qed (use stage len kl nonneg in \<open>auto simp: before_def\<close>)
  have second: "for_loop l (before + 1) add S1 = Inr (S1 + S2)"
    unfolding add_def S2_def prev_def
  proof (rule add_loop)
    show "fits_int a (S1 + (\<Sum>x\<in>{l..<before + 1}. m ! nat (stage - 1) ! nat x))"
      using fits_total by (simp add: S2_def prev_def)
    show "fits_int a S1" by (rule fits_S1)
  qed (use stage len kl nonneg in \<open>auto simp: before_def\<close>)
  have code_kl:
    "(if c_mod before 2 = 0
      then (if t \<le> c_div (before + 1) 2
            then (t + 1, c_div (before + 1) 2 + 1)
            else (c_div (before + 1) 2 + 1, t + 1))
      else (if t < c_div (before + 1) 2
            then (t + 1, c_div (before + 1) 2)
            else if t = c_div (before + 1) 2
            then (c_div (before + 1) 2, c_div (before + 1) 2 + 1)
            else (c_div (before + 1) 2, t + 1))) = (k, l)"
    using t by (simp add: k_def l_def cut_points_def Let_def before_def)
  have eq: "size' - (stage - 1 + 1) = before"
    by (simp add: before_def)
  have "getNumberPathsLeadingTo a m size' stage t
        = then_do (for_loop 0 k add 0) (\<lambda>sum. for_loop l (before + 1) add sum)"
    unfolding getNumberPathsLeadingTo_def Let_def getNumberCardsLeftAfterDealing_def eq code_kl
      add_def
    by simp
  then show ?thesis
    using first second total by (simp add: before_def prev_def)
qed

lemma upto_from_0_nth: "i < nat n \<Longrightarrow> [0..n - 1] ! i = int i"
  by (simp add: nth_upto)

lemma length_upto_from_0 [simp]: "length [0..n - 1] = nat n"
  by simp

lemma length_first_row [simp]: "length (first_row size' numberLower) = nat size'"
  by (simp add: first_row_def)

lemma nth_first_row:
  "i < nat size' \<Longrightarrow>
   first_row size' numberLower ! i =
     (if (if size' - numberLower \<ge> numberLower then numberLower \<le> int i else int i < numberLower)
      then 1 else 0)"
  by (simp add: first_row_def upto_from_0_nth)

lemma length_next_row [simp]: "length (next_row before prev) = nat before"
  by (simp add: next_row_def)

lemma nth_next_row: "i < nat before \<Longrightarrow> next_row before prev ! i = paths_from before (int i) prev"
  by (simp add: next_row_def upto_from_0_nth)

lemma length_table_row [simp]: "length (table_row size' numberLower s) = nat (size' - int s)"
  by (cases s) simp_all

lemma length_table [simp]: "length (table size' numberLower) = nat (size' - 1)"
  by (simp add: table_def)

lemma nth_table:
  "s < nat (size' - 1) \<Longrightarrow> table size' numberLower ! s = table_row size' numberLower s"
  by (simp add: table_def)

lemma paths_from_nonneg:
  assumes "1 \<le> before" "0 \<le> t" "t < before"
    and "\<And>x. 0 \<le> x \<Longrightarrow> x \<le> before \<Longrightarrow> 0 \<le> prev ! nat x"
  shows "0 \<le> paths_from before t prev"
proof -
  note r = cut_points_range[OF assms(1-3)]
  have "0 \<le> (\<Sum>i\<in>{0..<fst (cut_points before t)}. prev ! nat i)"
    by (rule sum_nonneg) (use r assms(4) in auto)
  moreover have "0 \<le> (\<Sum>i\<in>{snd (cut_points before t)..before}. prev ! nat i)"
    by (rule sum_nonneg) (use r assms(4) in auto)
  ultimately show ?thesis by (simp add: paths_from_def)
qed

lemma table_row_nonneg:
  "i < nat (size' - int s) \<Longrightarrow> 0 \<le> table_row size' numberLower s ! i"
proof (induction s arbitrary: i)
  case 0
  then show ?case by (simp add: nth_first_row)
next
  case (Suc s)
  let ?before = "size' - int (Suc s)"
  have i: "i < nat ?before" using Suc.prems by simp
  have "0 \<le> paths_from ?before (int i) (table_row size' numberLower s)"
  proof (rule paths_from_nonneg)
    fix x :: int
    assume "0 \<le> x" "x \<le> ?before"
    then have "nat x < nat (size' - int s)" by linarith
    then show "0 \<le> table_row size' numberLower s ! nat x" by (rule Suc.IH)
  qed (use i in auto)
  then show ?case using i by (simp add: nth_next_row)
qed

lemma initialiseStage_eq:
  assumes stage: "1 \<le> stage" "stage < int (length m)"
    and len_prev: "int (length (m ! nat (stage - 1))) = size' - stage + 1"
    and len_cur: "int (length (m ! nat stage)) = size' - stage"
    and before: "1 \<le> size' - stage"
    and nonneg: "\<And>x. 0 \<le> x \<Longrightarrow> x \<le> size' - stage \<Longrightarrow> 0 \<le> m ! nat (stage - 1) ! nat x"
    and fits: "\<And>t. 0 \<le> t \<Longrightarrow> t < size' - stage \<Longrightarrow>
                 fits_int a (paths_from (size' - stage) t (m ! nat (stage - 1)))"
  shows "initialiseStage a m size' stage
         = Inr (m[nat stage := next_row (size' - stage) (m ! nat (stage - 1))])"
proof -
  define prev where "prev = m ! nat (stage - 1)"
  define before where "before = size' - stage"
  let ?body = "\<lambda>i m'. then_do (getNumberPathsLeadingTo a m' size' stage i)
                            (\<lambda>v. matrix_set m' stage i v)"
  let ?I = "\<lambda>j t. \<exists>row. t = m[nat stage := row] \<and> length row = nat before
                   \<and> (\<forall>x. 0 \<le> x \<and> x < j \<longrightarrow> row ! nat x = paths_from before x prev)"
  have neq: "nat (stage - 1) \<noteq> nat stage" using stage by linarith
  have "\<exists>t. for_loop 0 before ?body m = Inr t \<and> ?I before t"
  proof (rule for_loop_invariant[where I = ?I])
    show "?I 0 m"
      using len_cur by (intro exI[of _ "m ! nat stage"]) (simp add: before_def)
    show "0 \<le> before" using before by (simp add: before_def)
  next
    fix j t
    assume j: "0 \<le> j" "j < before" and "?I j t"
    then obtain row where row: "t = m[nat stage := row]" "length row = nat before"
      "\<forall>x. 0 \<le> x \<and> x < j \<longrightarrow> row ! nat x = paths_from before x prev"
      by blast
    have t_prev: "t ! nat (stage - 1) = prev"
      using neq by (simp add: row(1) prev_def)
    have t_cur: "t ! nat stage = row"
      using stage by (simp add: row(1))
    have paths: "getNumberPathsLeadingTo a t size' stage j
                 = Inr (paths_from (size' - stage) j (t ! nat (stage - 1)))"
    proof (rule getNumberPathsLeadingTo_eq)
      show "fits_int a (paths_from (size' - stage) j (t ! nat (stage - 1)))"
        using fits[of j] j by (simp add: t_prev prev_def before_def)
    qed (use stage len_prev before nonneg j in \<open>auto simp: t_prev prev_def before_def row(1)\<close>)
    have set: "matrix_set t stage j v = Inr (m[nat stage := row[nat j := v]])" for v
    proof -
      have "matrix_set t stage j v = Inr (t[nat stage := (t ! nat stage)[nat j := v]])"
        by (rule matrix_set_in) (use stage j row(2) in \<open>auto simp: t_cur\<close>, simp add: row(1))
      then show ?thesis by (simp add: t_cur) (simp add: row(1))
    qed
    have "?I (j + 1) (m[nat stage := row[nat j := paths_from before j prev]])"
    proof (intro exI conjI allI impI)
      fix x :: int
      assume x: "0 \<le> x \<and> x < j + 1"
      show "row[nat j := paths_from before j prev] ! nat x = paths_from before x prev"
      proof (cases "x = j")
        case True
        then show ?thesis using j row(2) by simp
      next
        case False
        then have "nat x \<noteq> nat j" "x < j" using x j by linarith+
        then show ?thesis using row(3) x by simp
      qed
    qed (simp_all add: row(2))
    then show "\<exists>t'. ?body j t = Inr t' \<and> ?I (j + 1) t'"
      using paths set by (simp add: t_prev before_def)
  qed
  then obtain row where row: "for_loop 0 before ?body m = Inr (m[nat stage := row])"
    "length row = nat before" "\<forall>x. 0 \<le> x \<and> x < before \<longrightarrow> row ! nat x = paths_from before x prev"
    by blast
  have "row = next_row before prev"
  proof (rule nth_equalityI)
    fix i assume "i < length row"
    then have "0 \<le> int i \<and> int i < before" using row(2) by linarith
    then have "row ! nat (int i) = paths_from before (int i) prev" using row(3) by blast
    then show "row ! i = next_row before prev ! i"
      using \<open>i < length row\<close> row(2) by (simp add: nth_next_row)
  qed (simp add: row(2))
  moreover have "initialiseStage a m size' stage = for_loop 0 before ?body m"
    by (simp add: initialiseStage_def getNumberCardsLeftAfterDealing_def before_def
        algebra_simps)
  ultimately show ?thesis
    using row(1) by (simp add: before_def prev_def)
qed

lemma length_createMatrix [simp]: "length (createMatrix size') = nat (size' - 1)"
  by (simp add: createMatrix_def)

lemma nth_createMatrix:
  "s < nat (size' - 1) \<Longrightarrow> createMatrix size' ! s = replicate (nat (size' - int s)) 0"
  by (simp add: createMatrix_def nth_upto)

lemma initialiseFirstStage_eq:
  assumes m: "0 < length m" "m ! 0 = replicate (nat size') 0"
    and nL: "0 \<le> numberLower" "numberLower \<le> size'"
  shows "initialiseFirstStage m size' numberLower = Inr (m[0 := first_row size' numberLower])"
proof -
  define k where "k = (if size' - numberLower \<ge> numberLower then numberLower else 0)"
  define l where "l = (if size' - numberLower \<ge> numberLower then size' else numberLower)"
  have kl: "0 \<le> k" "k \<le> l" "l \<le> size'"
    using nL by (auto simp: k_def l_def)
  let ?body = "\<lambda>i m'. matrix_set m' 0 i (1::int)"
  let ?I = "\<lambda>j t. \<exists>row. t = m[0 := row] \<and> length row = nat size'
                   \<and> (\<forall>x. 0 \<le> x \<and> x < size' \<longrightarrow> row ! nat x = (if k \<le> x \<and> x < j then 1 else 0))"
  have "\<exists>t. for_loop k l ?body m = Inr t \<and> ?I l t"
  proof (rule for_loop_invariant[where I = ?I])
    have "m = m[0 := m ! 0]" by simp
    moreover have "length (m ! 0) = nat size'" using m by simp
    moreover have "\<forall>x. 0 \<le> x \<and> x < size' \<longrightarrow> m ! 0 ! nat x = (if k \<le> x \<and> x < k then 1 else 0)"
      using m by simp
    ultimately show "?I k m" by blast
    show "k \<le> l" by (rule kl)
  next
    fix j t
    assume j: "k \<le> j" "j < l" and "?I j t"
    then obtain row where row: "t = m[0 := row]" "length row = nat size'"
      "\<forall>x. 0 \<le> x \<and> x < size' \<longrightarrow> row ! nat x = (if k \<le> x \<and> x < j then 1 else 0)"
      by blast
    have t0: "t ! 0 = row" using m by (simp add: row(1))
    have len_t: "0 < length t" using m by (simp add: row(1))
    have "matrix_set t 0 j 1 = Inr (t[nat 0 := (t ! nat 0)[nat j := 1]])"
      by (rule matrix_set_in) (use len_t j kl row(2) in \<open>auto simp: t0\<close>)
    then have set: "matrix_set t 0 j 1 = Inr (m[0 := row[nat j := 1]])"
      by (simp add: t0) (simp add: row(1))
    have "?I (j + 1) (m[0 := row[nat j := 1]])"
    proof (intro exI conjI allI impI)
      fix x :: int
      assume x: "0 \<le> x \<and> x < size'"
      show "row[nat j := 1] ! nat x = (if k \<le> x \<and> x < j + 1 then 1 else 0)"
      proof (cases "x = j")
        case True
        then show ?thesis using j kl row(2) by simp
      next
        case False
        then have "nat x \<noteq> nat j" using x j kl by linarith
        then show ?thesis using row(3) x False by auto
      qed
    qed (simp_all add: row(2))
    then show "\<exists>t'. ?body j t = Inr t' \<and> ?I (j + 1) t'"
      using set by simp
  qed
  then obtain row where row: "for_loop k l ?body m = Inr (m[0 := row])" "length row = nat size'"
    "\<forall>x. 0 \<le> x \<and> x < size' \<longrightarrow> row ! nat x = (if k \<le> x \<and> x < l then 1 else 0)"
    by blast
  have "row = first_row size' numberLower"
  proof (rule nth_equalityI)
    fix i assume i: "i < length row"
    then have "0 \<le> int i \<and> int i < size'" using row(2) by linarith
    then have "row ! nat (int i) = (if k \<le> int i \<and> int i < l then 1 else 0)"
      using row(3) by blast
    then show "row ! i = first_row size' numberLower ! i"
      using i row(2) nL by (auto simp: nth_first_row k_def l_def)
  qed (simp add: row(2))
  moreover have "initialiseFirstStage m size' numberLower = for_loop k l ?body m"
    by (simp add: initialiseFirstStage_def k_def l_def)
  ultimately show ?thesis using row(1) by simp
qed

lemma table_fits_Mathematical [simp]: "table_fits Mathematical size' numberLower"
  by (simp add: table_fits_def)

lemma table_fits_nth:
  assumes "table_fits a size' numberLower" "s < nat (size' - 1)" "i < nat (size' - int s)"
  shows "fits_int a (table_row size' numberLower s ! i)"
proof -
  have "table_row size' numberLower s \<in> set (table size' numberLower)"
    using assms(2) by (simp add: table_def)
  moreover have "table_row size' numberLower s ! i \<in> set (table_row size' numberLower s)"
    using assms(3) by simp
  ultimately show ?thesis using assms(1) by (auto simp: table_fits_def)
qed

lemma calculateMatrix_eq:
  assumes size: "2 \<le> size'" and nL: "0 \<le> numberLower" "numberLower \<le> size'"
    and fits: "table_fits a size' numberLower"
  shows "calculateMatrix a (createMatrix size') size' numberLower = Inr (table size' numberLower)"
proof -
  define m0 where "m0 = (createMatrix size')[0 := first_row size' numberLower]"
  have first: "initialiseFirstStage (createMatrix size') size' numberLower = Inr m0"
    unfolding m0_def
    by (rule initialiseFirstStage_eq) (use size nL in \<open>simp_all add: nth_createMatrix\<close>)
  let ?body = "\<lambda>i m'. initialiseStage a m' size' i"
  let ?I = "\<lambda>i t. length t = nat (size' - 1)
             \<and> (\<forall>s. 0 \<le> s \<and> s < i \<longrightarrow> t ! nat s = table_row size' numberLower (nat s))
             \<and> (\<forall>s. i \<le> s \<and> s < size' - 1 \<longrightarrow> length (t ! nat s) = nat (size' - s))"
  have "\<exists>t. for_loop 1 (size' - 1) ?body m0 = Inr t \<and> ?I (size' - 1) t"
  proof (rule for_loop_invariant[where I = ?I])
    show "1 \<le> size' - 1" using size by simp
    show "?I 1 m0"
    proof (intro conjI allI impI)
      fix s :: int assume "0 \<le> s \<and> s < 1"
      then have "s = 0" by simp
      then show "m0 ! nat s = table_row size' numberLower (nat s)"
        using size by (simp add: m0_def)
    next
      fix s :: int assume s: "1 \<le> s \<and> s < size' - 1"
      then have "nat s \<noteq> 0" "nat s < nat (size' - 1)" by linarith+
      then show "length (m0 ! nat s) = nat (size' - s)"
        using s by (simp add: m0_def nth_createMatrix)
    qed (simp add: m0_def)
  next
    fix i t
    assume i: "1 \<le> i" "i < size' - 1" and inv: "?I i t"
    have prev: "t ! nat (i - 1) = table_row size' numberLower (nat (i - 1))"
      using inv i by simp
    have Suc_eq: "nat i = Suc (nat (i - 1))" using i by linarith
    have row_i: "next_row (size' - i) (table_row size' numberLower (nat (i - 1)))
                 = table_row size' numberLower (nat i)"
      using i by (simp add: Suc_eq)
    have "initialiseStage a t size' i = Inr (t[nat i := next_row (size' - i) (t ! nat (i - 1))])"
    proof (rule initialiseStage_eq)
      show "int (length (t ! nat (i - 1))) = size' - i + 1"
        using i by (simp add: prev)
      show "int (length (t ! nat i)) = size' - i"
        using inv i by simp
      show "0 \<le> t ! nat (i - 1) ! nat x" if "0 \<le> x" "x \<le> size' - i" for x
        unfolding prev by (rule table_row_nonneg) (use that i in linarith)
      show "fits_int a (paths_from (size' - i) x (t ! nat (i - 1)))"
        if "0 \<le> x" "x < size' - i" for x
      proof -
        have "fits_int a (table_row size' numberLower (nat i) ! nat x)"
          by (rule table_fits_nth[OF fits]) (use that i in linarith)+
        then show ?thesis
          using that by (simp add: prev row_i[symmetric] nth_next_row)
      qed
    qed (use i inv in auto)
    then have step: "initialiseStage a t size' i = Inr (t[nat i := table_row size' numberLower (nat i)])"
      by (simp add: prev row_i)
    have "?I (i + 1) (t[nat i := table_row size' numberLower (nat i)])"
    proof (intro conjI allI impI)
      fix s :: int assume s: "0 \<le> s \<and> s < i + 1"
      show "t[nat i := table_row size' numberLower (nat i)] ! nat s
            = table_row size' numberLower (nat s)"
      proof (cases "s = i")
        case True
        then show ?thesis using inv i by simp
      next
        case False
        then have "nat s \<noteq> nat i" "s < i" using s i by linarith+
        then show ?thesis using inv s by simp
      qed
    next
      fix s :: int assume s: "i + 1 \<le> s \<and> s < size' - 1"
      then have "nat s \<noteq> nat i" using i by linarith
      then show "length (t[nat i := table_row size' numberLower (nat i)] ! nat s) = nat (size' - s)"
        using inv s by simp
    qed (use inv in simp)
    then show "\<exists>t'. ?body i t = Inr t' \<and> ?I (i + 1) t'"
      using step by simp
  qed
  then obtain t where t: "for_loop 1 (size' - 1) ?body m0 = Inr t" "length t = nat (size' - 1)"
    "\<forall>s. 0 \<le> s \<and> s < size' - 1 \<longrightarrow> t ! nat s = table_row size' numberLower (nat s)"
    by blast
  have "t = table size' numberLower"
  proof (rule nth_equalityI)
    fix s assume s: "s < length t"
    then have "0 \<le> int s \<and> int s < size' - 1" using t(2) by linarith
    then have "t ! nat (int s) = table_row size' numberLower (nat (int s))" using t(3) by blast
    then show "t ! s = table size' numberLower ! s"
      using s t(2) by (simp add: nth_table)
  qed (simp add: t(2))
  then show ?thesis
    using first t(1) by (simp add: calculateMatrix_def)
qed

lemma ceiling_half: "\<lceil>real_of_int b / 2\<rceil> = (b + 1) div 2"
proof -
  have "\<lceil>real_of_int b / real_of_int 2\<rceil> = - (- b div 2)"
    by (rule ceiling_divide_eq_div)
  then show ?thesis by simp
qed

lemma spec_cut_points_eq: "spec_cut_points before t = cut_points before t"
  by (simp add: spec_cut_points_def cut_points_def ceiling_half even_iff_mod_2_eq_zero)

lemma table_entry_recurrence:
  assumes "1 \<le> s" "s \<le> size' - 2" "0 \<le> t" "t \<le> size' - s - 1"
  shows "table size' numberLower ! nat s ! nat t
         = paths_from (size' - s) t (table size' numberLower ! nat (s - 1))"
proof -
  have Suc_eq: "nat s = Suc (nat (s - 1))" using assms by linarith
  have "table size' numberLower ! nat s = table_row size' numberLower (nat s)"
    by (rule nth_table) (use assms in linarith)
  moreover have "table size' numberLower ! nat (s - 1) = table_row size' numberLower (nat (s - 1))"
    by (rule nth_table) (use assms in linarith)
  moreover have "table_row size' numberLower (nat s)
                 = next_row (size' - s) (table_row size' numberLower (nat (s - 1)))"
    using assms by (simp add: Suc_eq)
  moreover have "nat t < nat (size' - s)" using assms by linarith
  ultimately show ?thesis using assms by (simp add: nth_next_row)
qed

text \<open>
  Claim C4. After \<open>initialiseFirstStage\<close> on the freshly allocated table, row 0 has \<open>size\<close>
  entries; if \<open>numberHigher = size - numberLower \<ge> numberLower\<close> it holds 1 exactly at the
  indices \<open>numberLower \<le> i \<le> size - 1\<close>, otherwise exactly at \<open>0 \<le> i \<le> numberLower - 1\<close>, and 0
  at every other index. The later stages leave that row as it is.
\<close>

theorem first_stage_row:
  assumes "2 \<le> size'" "0 \<le> numberLower" "numberLower \<le> size'" "0 \<le> i" "i < size'"
  shows "\<exists>m. initialiseFirstStage (createMatrix size') size' numberLower = Inr m
            \<and> length (m ! 0) = nat size'
            \<and> m ! 0 ! nat i
              = (if size' - numberLower \<ge> numberLower
                 then (if numberLower \<le> i \<and> i \<le> size' - 1 then 1 else 0)
                 else (if 0 \<le> i \<and> i \<le> numberLower - 1 then 1 else 0))
            \<and> (\<exists>m'. calculateMatrix Mathematical (createMatrix size') size' numberLower = Inr m'
                     \<and> m' ! 0 = m ! 0)"
proof (intro exI conjI)
  show "initialiseFirstStage (createMatrix size') size' numberLower
        = Inr ((createMatrix size')[0 := first_row size' numberLower])"
    by (rule initialiseFirstStage_eq) (use assms in \<open>simp_all add: nth_createMatrix\<close>)
  show "calculateMatrix Mathematical (createMatrix size') size' numberLower
        = Inr (table size' numberLower)"
    by (rule calculateMatrix_eq) (use assms in simp_all)
  show "table size' numberLower ! 0 = (createMatrix size')[0 := first_row size' numberLower] ! 0"
    using assms by (simp add: nth_table)
  show "length ((createMatrix size')[0 := first_row size' numberLower] ! 0) = nat size'"
    using assms by simp
  show "(createMatrix size')[0 := first_row size' numberLower] ! 0 ! nat i
        = (if size' - numberLower \<ge> numberLower
           then (if numberLower \<le> i \<and> i \<le> size' - 1 then 1 else 0)
           else (if 0 \<le> i \<and> i \<le> numberLower - 1 then 1 else 0))"
    using assms by (auto simp: nth_first_row)
qed

theorem first_stage_row_witness:
  "\<exists>m. initialiseFirstStage (createMatrix 3) 3 1 = Inr m
       \<and> length (m ! 0) = 3 \<and> m ! 0 ! 0 = 0 \<and> m ! 0 ! 1 = 1 \<and> m ! 0 ! 2 = 1
       \<and> (\<exists>m'. calculateMatrix Mathematical (createMatrix 3) 3 1 = Inr m' \<and> m' ! 0 = m ! 0)"
  using first_stage_row[of 3 1 0] first_stage_row[of 3 1 1] first_stage_row[of 3 1 2]
  by auto

declare deals.simps [simp del]

lemma permutations_fit_Mathematical [simp]: "permutations_fit Mathematical size'"
  by (simp add: permutations_fit_def)

lemma length_permutation_table [simp]: "length (permutation_table size') = nat (size' - 2)"
  by (simp add: permutation_table_def)

lemma nth_permutation_table:
  "i < nat (size' - 2) \<Longrightarrow> permutation_table size' ! i = deals size' (i + 2)"
  by (simp add: permutation_table_def)

lemma deals_2: "deals n 2 = n * (n - 1)"
  by (simp add: numeral_2_eq_2 deals.simps)

lemma deals_pos: "int k \<le> n \<Longrightarrow> 0 < deals n k"
  by (induction k) (simp_all add: deals.simps)

lemma calculatePermutations_eq:
  assumes size: "3 \<le> size'" and fits: "permutations_fit a size'"
  shows "calculatePermutations a (createPermutations size') size' = Inr (permutation_table size')"
proof -
  define len where "len = size' - 2"
  define ps0 where "ps0 = (createPermutations size')[0 := size' * (size' - 1)]"
  let ?body = "\<lambda>i ps. then_do (array_get ps (i - 1))
                 (\<lambda>prev. then_do (long_result a (prev * ((size' - i) - 1)))
                   (\<lambda>v. array_set ps i v))"
  let ?I = "\<lambda>i ps. length ps = nat len
                \<and> (\<forall>x. 0 \<le> x \<and> x < i \<longrightarrow> ps ! nat x = deals size' (nat x + 2))"
  have fits_entry: "fits_long a (deals size' (nat x + 2))" if "0 \<le> x" "x < len" for x
  proof -
    have "nat x < nat (size' - 2)" using that by (simp add: len_def)
    then have "permutation_table size' ! nat x \<in> set (permutation_table size')"
      by simp
    then show ?thesis
      using fits \<open>nat x < nat (size' - 2)\<close>
      by (auto simp: permutations_fit_def nth_permutation_table)
  qed
  have "\<exists>t. for_loop 1 len ?body ps0 = Inr t \<and> ?I len t"
  proof (rule for_loop_invariant[where I = ?I])
    show "1 \<le> len" using size by (simp add: len_def)
    show "?I 1 ps0"
    proof (intro conjI allI impI)
      fix x :: int assume "0 \<le> x \<and> x < 1"
      then have "x = 0" by simp
      then show "ps0 ! nat x = deals size' (nat x + 2)"
        using size
        by (simp add: ps0_def createPermutations_def getLengthOfPermutations_def deals.simps)
    qed (simp add: ps0_def createPermutations_def getLengthOfPermutations_def len_def)
  next
    fix i ps
    assume i: "1 \<le> i" "i < len" and inv: "?I i ps"
    have prev: "array_get ps (i - 1) = Inr (deals size' (nat (i - 1) + 2))"
      using i inv by simp
    have next_val: "deals size' (nat (i - 1) + 2) * ((size' - i) - 1) = deals size' (nat i + 2)"
    proof -
      define k where "k = nat (i - 1) + 2"
      have "nat i + 2 = Suc k" "(size' - i) - 1 = size' - int k"
        using i by (simp_all add: k_def)
      then show ?thesis
        by (simp only: k_def[symmetric] deals.simps)
    qed
    have "fits_long a (deals size' (nat i + 2))"
      using fits_entry[of i] i by simp
    then have step: "?body i ps = Inr (ps[nat i := deals size' (nat i + 2)])"
      using prev next_val i inv by simp
    have "?I (i + 1) (ps[nat i := deals size' (nat i + 2)])"
    proof (intro conjI allI impI)
      fix x :: int assume x: "0 \<le> x \<and> x < i + 1"
      show "ps[nat i := deals size' (nat i + 2)] ! nat x = deals size' (nat x + 2)"
      proof (cases "x = i")
        case True
        then show ?thesis using i inv by simp
      next
        case False
        then have "nat x \<noteq> nat i" "x < i" using x i by linarith+
        then show ?thesis using inv x by simp
      qed
    qed (use inv in simp)
    then show "\<exists>t'. ?body i ps = Inr t' \<and> ?I (i + 1) t'"
      using step by simp
  qed
  then obtain t where t: "for_loop 1 len ?body ps0 = Inr t" "length t = nat len"
    "\<forall>x. 0 \<le> x \<and> x < len \<longrightarrow> t ! nat x = deals size' (nat x + 2)"
    by blast
  have "t = permutation_table size'"
  proof (rule nth_equalityI)
    fix i assume i: "i < length t"
    then have "0 \<le> int i \<and> int i < len" using t(2) by linarith
    then have "t ! nat (int i) = deals size' (nat (int i) + 2)" using t(3) by blast
    then show "t ! i = permutation_table size' ! i"
      using i t(2) by (simp add: nth_permutation_table len_def)
  qed (simp add: t(2) len_def)
  moreover have "calculatePermutations a (createPermutations size') size'
                 = for_loop 1 len ?body ps0"
    using size fits
    by (simp add: calculatePermutations_def getLengthOfPermutations_def len_def ps0_def
        createPermutations_def permutations_fit_def)
  ultimately show ?thesis using t(1) by simp
qed

lemma calculatePermutations_size_2:
  "calculatePermutations a (createPermutations 2) 2 = Inl OutOfBounds"
  by (cases a; hypsubst; code_simp)

lemma getNumberShuffles_size_2: "getNumberShuffles (createPermutations 2) 2 = Inl OutOfBounds"
  by code_simp

lemma probabilities_fit_Mathematical [simp]: "probabilities_fit Mathematical size' numberLower"
  by (simp add: probabilities_fit_def)

lemma length_internal_probabilities [simp]:
  "length (internal_probabilities size' numberLower) = nat (size' - 1)"
  by (simp add: internal_probabilities_def)

lemma nth_internal_probabilities:
  "n < nat (size' - 1) \<Longrightarrow>
   internal_probabilities size' numberLower ! n = stage_probability size' numberLower n"
  by (simp add: internal_probabilities_def)

lemma numberFailingCards_nonneg:
  "0 \<le> numberLower \<Longrightarrow> numberLower < numberCardsLeft \<Longrightarrow>
   0 \<le> numberFailingCards numberCardsLeft numberLower"
  by (simp add: numberFailingCards_def Let_def)

lemma ulong_of_fits: "0 \<le> d \<Longrightarrow> fits_long a d \<Longrightarrow> ulong_of a d = d"
  by (auto simp: ulong_of_def fits_long_def LONG_MAX_def)

lemma fail_loop:
  assumes row: "0 \<le> r" "r < int (length m)" and rng: "n \<le> int (length (m ! nat r))"
    and nonneg: "\<And>x. 0 \<le> x \<Longrightarrow> x < n \<Longrightarrow> 0 \<le> m ! nat r ! nat x * w x"
    and fits_p: "\<And>x. 0 \<le> x \<Longrightarrow> x < n \<Longrightarrow> fits_int a (m ! nat r ! nat x * w x)"
    and fits: "fits_long a (\<Sum>x\<in>{0..<n}. m ! nat r ! nat x * w x)"
  shows "for_loop 0 n
           (\<lambda>j sum. then_do (matrix_get m r j)
              (\<lambda>v. then_do (int_result a (v * w j)) (\<lambda>p. long_result a (sum + p))))
           0
         = Inr (\<Sum>x\<in>{0..<n}. m ! nat r ! nat x * w x)"
proof (cases "0 \<le> n")
  case False
  then show ?thesis by simp
next
  case True
  let ?f = "\<lambda>x. m ! nat r ! nat x * w x"
  let ?body = "\<lambda>j sum. then_do (matrix_get m r j)
                 (\<lambda>v. then_do (int_result a (v * w j)) (\<lambda>p. long_result a (sum + p)))"
  let ?I = "\<lambda>j t. t = (\<Sum>x\<in>{0..<j}. ?f x)"
  have "\<exists>t. for_loop 0 n ?body 0 = Inr t \<and> ?I n t"
  proof (rule for_loop_invariant[where I = ?I])
    show "?I 0 0" by simp
    show "0 \<le> n" by (rule True)
  next
    fix j t
    assume j: "0 \<le> j" "j < n" and t: "?I j t"
    have get: "matrix_get m r j = Inr (m ! nat r ! nat j)"
      using row rng j by (simp add: matrix_get_in)
    have next_sum: "t + ?f j = (\<Sum>x\<in>{0..<j + 1}. ?f x)"
      using j t by (simp add: sum_int_interval_Suc)
    have lo: "0 \<le> (\<Sum>x\<in>{0..<j + 1}. ?f x)"
      by (rule sum_nonneg) (use j nonneg in auto)
    have hi: "(\<Sum>x\<in>{0..<j + 1}. ?f x) \<le> (\<Sum>x\<in>{0..<n}. ?f x)"
      using j nonneg by (intro sum_int_interval_mono) auto
    have "fits_long a (t + ?f j)"
      unfolding next_sum using lo hi by (intro fits_long_between[OF fits_zero(2) fits]) auto
    then show "\<exists>t'. ?body j t = Inr t' \<and> ?I (j + 1) t'"
      using get next_sum fits_p[OF j] by simp
  qed
  then show ?thesis by auto
qed

lemma table_rows_available:
  assumes "0 \<le> n" "n < size' - 1"
  shows "n < int (length (table size' numberLower))"
    "table size' numberLower ! nat n = table_row size' numberLower (nat n)"
    "int (length (table size' numberLower ! nat n)) = size' - n"
proof -
  have n: "nat n < nat (size' - 1)" using assms by linarith
  show "n < int (length (table size' numberLower))" using assms by simp
  show "table size' numberLower ! nat n = table_row size' numberLower (nat n)"
    using n by (rule nth_table)
  then show "int (length (table size' numberLower ! nat n)) = size' - n"
    using assms by simp
qed

lemma permutation_entry:
  assumes "0 \<le> n" "n < size' - 2" "permutations_fit a size'"
  shows "array_get (permutation_table size') n = Inr (deals size' (nat n + 2))"
    "ulong_of a (deals size' (nat n + 2)) = deals size' (nat n + 2)"
    "0 < deals size' (nat n + 2)"
proof -
  have n: "nat n < nat (size' - 2)" using assms by linarith
  show "array_get (permutation_table size') n = Inr (deals size' (nat n + 2))"
    using assms n by (simp add: nth_permutation_table)
  show pos: "0 < deals size' (nat n + 2)"
    by (rule deals_pos) (use assms in linarith)
  have "permutation_table size' ! nat n \<in> set (permutation_table size')"
    using n by simp
  then have "fits_long a (deals size' (nat n + 2))"
    using assms(3) n by (auto simp: permutations_fit_def nth_permutation_table)
  then show "ulong_of a (deals size' (nat n + 2)) = deals size' (nat n + 2)"
    using pos by (intro ulong_of_fits) auto
qed

lemma calculateInitialProbabilities_eq:
  assumes size: "3 \<le> size'"
    and fits: "permutations_fit a size'" "probabilities_fit a size' numberLower"
  shows "\<exists>probs. calculateInitialProbabilities a (table size' numberLower)
                   (createProbabilities size') (permutation_table size') size' = Inr probs
          \<and> length probs = nat (size' - 1)
          \<and> (\<forall>x. 0 \<le> x \<and> x < size' - 2 \<longrightarrow>
                 probs ! nat x = stage_probability size' numberLower (nat x))"
proof -
  let ?m = "table size' numberLower"
  let ?inner = "\<lambda>n. for_loop 0 (size' - n)
                  (\<lambda>numberLower sum.
                     then_do (matrix_get ?m n numberLower)
                       (\<lambda>v. then_do
                          (int_result a (v * numberFailingCards (size' - n) numberLower))
                          (\<lambda>p. long_result a (sum + p))))
                  0"
  let ?body = "\<lambda>n probs. then_do (?inner n)
                 (\<lambda>sum. then_do (array_get (permutation_table size') n)
                    (\<lambda>d. then_do (mpq_set_si sum (ulong_of a d))
                      (\<lambda>q. array_set probs n q)))"
  let ?I = "\<lambda>n probs. length probs = nat (size' - 1)
              \<and> (\<forall>x. 0 \<le> x \<and> x < n \<longrightarrow>
                     probs ! nat x = stage_probability size' numberLower (nat x))"
  have inner: "?inner n = Inr (fail_count (size' - n) (table_row size' numberLower (nat n)))"
    if n: "0 \<le> n" "n < size' - 2" for n
  proof -
    note rows = table_rows_available[of n size' numberLower]
    have n': "n < size' - 1" using n by simp
    have "?inner n = Inr (\<Sum>x\<in>{0..<size' - n}.
                            ?m ! nat n ! nat x * numberFailingCards (size' - n) x)"
    proof (rule fail_loop)
      show "0 \<le> ?m ! nat n ! nat x * numberFailingCards (size' - n) x"
        if "0 \<le> x" "x < size' - n" for x
      proof (rule mult_nonneg_nonneg)
        show "0 \<le> ?m ! nat n ! nat x"
          unfolding rows(2)[OF n(1) n'] by (rule table_row_nonneg) (use that n in linarith)
        show "0 \<le> numberFailingCards (size' - n) x"
          using that by (rule numberFailingCards_nonneg)
      qed
      show "fits_int a (?m ! nat n ! nat x * numberFailingCards (size' - n) x)"
        if "0 \<le> x" "x < size' - n" for x
        using fits(2) that n by (simp add: probabilities_fit_def rows(2)[OF n(1) n'])
      show "fits_long a (\<Sum>x\<in>{0..<size' - n}.
                           ?m ! nat n ! nat x * numberFailingCards (size' - n) x)"
        using fits(2) n
        by (simp add: probabilities_fit_def rows(2)[OF n(1) n'] fail_count_def)
    qed (use n rows in auto)
    then show ?thesis by (simp add: fail_count_def rows(2)[OF n(1) n'])
  qed
  have "\<exists>t. for_loop 0 (size' - 2) ?body (createProbabilities size') = Inr t \<and> ?I (size' - 2) t"
  proof (rule for_loop_invariant[where I = ?I])
    show "?I 0 (createProbabilities size')"
      by (simp add: createProbabilities_def getLengthOfProbabilities_def)
    show "0 \<le> size' - 2" using size by simp
  next
    fix n probs
    assume n: "0 \<le> n" "n < size' - 2" and inv: "?I n probs"
    note perm = permutation_entry[OF n fits(1)]
    define q where "q = Fract (fail_count (size' - n) (table_row size' numberLower (nat n)))
                            (deals size' (nat n + 2))"
    have q: "q = stage_probability size' numberLower (nat n)"
      using n by (simp add: q_def stage_probability_def)
    have step: "?body n probs = Inr (probs[nat n := q])"
      using inner[OF n] perm n inv by (simp add: mpq_set_si_def q_def)
    have "?I (n + 1) (probs[nat n := q])"
    proof (intro conjI allI impI)
      fix x :: int assume x: "0 \<le> x \<and> x < n + 1"
      show "probs[nat n := q] ! nat x = stage_probability size' numberLower (nat x)"
      proof (cases "x = n")
        case True
        then show ?thesis using n inv q by simp
      next
        case False
        then have "nat x \<noteq> nat n" "x < n" using x n by linarith+
        then show ?thesis using inv x by simp
      qed
    qed (use inv in simp)
    then show "\<exists>t'. ?body n probs = Inr t' \<and> ?I (n + 1) t'"
      using step by simp
  qed
  then show ?thesis
    by (simp add: calculateInitialProbabilities_def Let_def)
qed

lemma calculateInternalProbabilities_eq:
  assumes size: "3 \<le> size'"
    and fits: "permutations_fit a size'" "probabilities_fit a size' numberLower"
  shows "calculateInternalProbabilities a (table size' numberLower) (createProbabilities size')
           (permutation_table size') size' = Inr (internal_probabilities size' numberLower)"
proof -
  let ?m = "table size' numberLower"
  from calculateInitialProbabilities_eq[OF assms]
  obtain probs where probs:
    "calculateInitialProbabilities a ?m (createProbabilities size') (permutation_table size') size'
     = Inr probs"
    "length probs = nat (size' - 1)"
    "\<forall>x. 0 \<le> x \<and> x < size' - 2 \<longrightarrow> probs ! nat x = stage_probability size' numberLower (nat x)"
    by blast
  define last_row where "last_row = table_row size' numberLower (nat (size' - 2))"
  have rows: "size' - 2 < int (length ?m)" "?m ! nat (size' - 2) = last_row"
    "int (length last_row) = 2"
    using table_rows_available[of "size' - 2" size' numberLower] size
    by (simp_all add: last_row_def)
  have x: "matrix_get ?m (size' - 2) 0 = Inr (last_row ! 0)"
    using matrix_get_in[of "size' - 2" ?m 0] size rows by simp
  have y: "matrix_get ?m (size' - 2) 1 = Inr (last_row ! 1)"
    using matrix_get_in[of "size' - 2" ?m 1] size rows by simp
  have sum: "int_result a (last_row ! 0 + last_row ! 1) = Inr (last_row ! 0 + last_row ! 1)"
    using fits(2) by (simp add: probabilities_fit_def last_row_def)
  have n: "0 \<le> size' - 3" "size' - 3 < size' - 2" using size by simp_all
  note perm = permutation_entry[OF n fits(1)]
  have idx: "nat (size' - 3) + 2 = nat (size' - 2) + 1" using size by linarith
  have shuffles: "getNumberShuffles (permutation_table size') size'
                  = Inr (deals size' (nat (size' - 2) + 1))"
    using perm(1)[unfolded idx] by (simp add: getNumberShuffles_def getLengthOfPermutations_def)
  define q where "q = Fract (last_row ! 0 + last_row ! 1) (deals size' (nat (size' - 2) + 1))"
  have q: "q = stage_probability size' numberLower (nat (size' - 2))"
    using size by (simp add: q_def stage_probability_def last_row_def)
  have final: "calculateFinalProbability a ?m probs (permutation_table size') size'
               = Inr (probs[nat (size' - 2) := q])"
    using x y sum shuffles perm(2,3)[unfolded idx] probs(2) size
    by (simp add: calculateFinalProbability_def getLengthOfProbabilities_def mpq_set_si_def
        q_def)
  have "probs[nat (size' - 2) := q] = internal_probabilities size' numberLower"
  proof (rule nth_equalityI)
    fix i assume i: "i < length (probs[nat (size' - 2) := q])"
    show "probs[nat (size' - 2) := q] ! i = internal_probabilities size' numberLower ! i"
    proof (cases "i = nat (size' - 2)")
      case True
      then show ?thesis
        using i q by (simp add: nth_internal_probabilities probs(2))
    next
      case False
      then have "0 \<le> int i \<and> int i < size' - 2" using i probs(2) by simp
      then have "probs ! nat (int i) = stage_probability size' numberLower (nat (int i))"
        using probs(3) by blast
      then show ?thesis
        using False i by (simp add: nth_internal_probabilities probs(2))
    qed
  qed (simp add: probs(2))
  then show ?thesis
    using probs(1) final by (simp add: calculateInternalProbabilities_def)
qed

lemma all_fit_Mathematical [simp]: "all_fit Mathematical size' numberLower"
  by (simp add: all_fit_def)

lemma length_accumulated [simp]: "length (accumulated probs) = length probs"
  by (simp add: accumulated_def)

lemma nth_accumulated: "n < length probs \<Longrightarrow> accumulated probs ! n = sum_list (drop n probs)"
  by (simp add: accumulated_def)

lemma sum_list_drop_step:
  "n < length probs \<Longrightarrow> sum_list (drop n probs) = probs ! n + sum_list (drop (Suc n) probs)"
  by (simp flip: Cons_nth_drop_Suc)

lemma accumulateProbabilities_eq:
  assumes len: "int (length probs) = size' - 1"
  shows "accumulateProbabilities probs size' = Inr (accumulated probs)"
proof -
  define len where "len = size' - 1"
  let ?body = "\<lambda>n (ps, sum).
                 then_do (array_get ps n)
                   (\<lambda>oldProbability. then_do (array_set ps n (oldProbability + sum))
                     (\<lambda>ps'. Inr (ps', sum + oldProbability)))"
  let ?I = "\<lambda>j (ps, sum). length ps = length probs
              \<and> sum = sum_list (drop (nat (j + 1)) probs)
              \<and> (\<forall>x. j < x \<and> x < len \<longrightarrow> ps ! nat x = sum_list (drop (nat x) probs))
              \<and> (\<forall>x. 0 \<le> x \<and> x \<le> j \<longrightarrow> ps ! nat x = probs ! nat x)"
  have "\<exists>t. for_down (len - 1) ?body (probs, 0) = Inr t \<and> ?I (-1) t"
  proof (rule for_down_invariant[where I = ?I])
    show "?I (len - 1) (probs, 0)"
      using assms by (simp add: len_def)
    show "-1 \<le> len - 1" using assms by (simp add: len_def)
  next
    fix j t
    assume j: "0 \<le> j" "j \<le> len - 1" and inv: "?I j t"
    obtain ps sum where t: "t = (ps, sum)" by (cases t)
    have inv': "length ps = length probs" "sum = sum_list (drop (nat (j + 1)) probs)"
      "\<forall>x. j < x \<and> x < len \<longrightarrow> ps ! nat x = sum_list (drop (nat x) probs)"
      "\<forall>x. 0 \<le> x \<and> x \<le> j \<longrightarrow> ps ! nat x = probs ! nat x"
      using inv by (simp_all add: t)
    have jlen: "nat j < length probs" using j assms by (simp add: len_def)
    have old: "ps ! nat j = probs ! nat j" using inv'(4) j by simp
    have Suc_eq: "nat (j + 1) = Suc (nat j)" using j by linarith
    have total: "probs ! nat j + sum = sum_list (drop (nat j) probs)"
      using sum_list_drop_step[OF jlen] by (simp add: inv'(2) Suc_eq)
    have step: "?body j t = Inr (ps[nat j := sum_list (drop (nat j) probs)],
                                 sum_list (drop (nat j) probs))"
      using j jlen inv'(1) old total by (simp add: t add.commute)
    have "?I (j - 1) (ps[nat j := sum_list (drop (nat j) probs)], sum_list (drop (nat j) probs))"
    proof -
      have "ps[nat j := sum_list (drop (nat j) probs)] ! nat x = sum_list (drop (nat x) probs)"
        if "j - 1 < x \<and> x < len" for x
      proof (cases "x = j")
        case True
        then show ?thesis using jlen inv'(1) by simp
      next
        case False
        then have "nat x \<noteq> nat j" "j < x" using that j by linarith+
        then show ?thesis using inv'(3) that by simp
      qed
      moreover have "ps[nat j := sum_list (drop (nat j) probs)] ! nat x = probs ! nat x"
        if "0 \<le> x \<and> x \<le> j - 1" for x
      proof -
        have "nat x \<noteq> nat j" "x \<le> j" using that j by linarith+
        then show ?thesis using inv'(4) that by simp
      qed
      ultimately show ?thesis using inv'(1) j by simp
    qed
    then show "\<exists>t'. ?body j t = Inr t' \<and> ?I (j - 1) t'"
      using step by simp
  qed
  then obtain ps sum where res: "for_down (len - 1) ?body (probs, 0) = Inr (ps, sum)"
    "length ps = length probs"
    "\<forall>x. -1 < x \<and> x < len \<longrightarrow> ps ! nat x = sum_list (drop (nat x) probs)"
    by auto
  have "ps = accumulated probs"
  proof (rule nth_equalityI)
    fix i assume i: "i < length ps"
    then have "-1 < int i \<and> int i < len" using res(2) assms by (simp add: len_def)
    then have "ps ! nat (int i) = sum_list (drop (nat (int i)) probs)" using res(3) by blast
    then show "ps ! i = accumulated probs ! i"
      using i res(2) by (simp add: nth_accumulated)
  qed (simp add: res(2))
  then show ?thesis
    using res(1)
    by (simp add: accumulateProbabilities_def getLengthOfProbabilities_def len_def)
qed

lemma convertToNumeratorsAndDenominators_eq:
  assumes len: "int (length probs) = size' - 1"
    and bufs: "size' - 1 \<le> int (length ns)" "size' - 1 \<le> int (length ds)"
  shows "convertToNumeratorsAndDenominators a ns ds probs size' = Inr (exported a probs ns ds)"
proof -
  define len where "len = size' - 1"
  define f where "f = (\<lambda>q. mpz_get_ui a (mpq_numref q))"
  define g where "g = (\<lambda>q. mpz_get_ui a (mpq_denref q))"
  let ?body = "\<lambda>i (ns', ds').
                 then_do (array_get probs i)
                   (\<lambda>q. let numerator = mpz_get_ui a (mpq_numref q);
                             denominator = mpz_get_ui a (mpq_denref q)
                         in then_do (array_set ns' i numerator)
                              (\<lambda>ns''. then_do (array_set ds' i denominator)
                                (\<lambda>ds''. Inr (ns'', ds''))))"
  let ?I = "\<lambda>i (ns', ds'). length ns' = length ns \<and> length ds' = length ds
              \<and> (\<forall>x. x < nat i \<longrightarrow> ns' ! x = f (probs ! x) \<and> ds' ! x = g (probs ! x))
              \<and> (\<forall>x. nat i \<le> x \<longrightarrow> ns' ! x = ns ! x \<and> ds' ! x = ds ! x)"
  have "\<exists>t. for_loop 0 len ?body (ns, ds) = Inr t \<and> ?I len t"
  proof (rule for_loop_invariant[where I = ?I])
    show "?I 0 (ns, ds)" by simp
    show "0 \<le> len" using assms by (simp add: len_def)
  next
    fix i t
    assume i: "0 \<le> i" "i < len" and inv: "?I i t"
    obtain ns' ds' where t: "t = (ns', ds')" by (cases t)
    have inv': "length ns' = length ns" "length ds' = length ds"
      "\<forall>x. x < nat i \<longrightarrow> ns' ! x = f (probs ! x) \<and> ds' ! x = g (probs ! x)"
      "\<forall>x. nat i \<le> x \<longrightarrow> ns' ! x = ns ! x \<and> ds' ! x = ds ! x"
      using inv by (simp_all add: t)
    have step: "?body i t = Inr (ns'[nat i := f (probs ! nat i)], ds'[nat i := g (probs ! nat i)])"
      using i assms inv'(1,2) by (simp add: t len_def f_def g_def)
    have Suc_eq: "nat (i + 1) = Suc (nat i)" using i by linarith
    have in_range: "nat i < length ns" "nat i < length ds"
      using i bufs by (simp_all add: len_def)
    have "?I (i + 1) (ns'[nat i := f (probs ! nat i)], ds'[nat i := g (probs ! nat i)])"
      using inv' in_range by (auto simp: Suc_eq nth_list_update less_Suc_eq)
    then show "\<exists>t'. ?body i t = Inr t' \<and> ?I (i + 1) t'"
      using step by simp
  qed
  then obtain ns' ds' where res: "for_loop 0 len ?body (ns, ds) = Inr (ns', ds')"
    "length ns' = length ns" "length ds' = length ds"
    "\<forall>x. x < nat len \<longrightarrow> ns' ! x = f (probs ! x) \<and> ds' ! x = g (probs ! x)"
    "\<forall>x. nat len \<le> x \<longrightarrow> ns' ! x = ns ! x \<and> ds' ! x = ds ! x"
    by auto
  have n: "nat len = length probs" using assms by (simp add: len_def)
  have "ns' = map f probs @ drop (length probs) ns"
  proof (rule nth_equalityI)
    show "length ns' = length (map f probs @ drop (length probs) ns)"
      using res(2) bufs n by (simp add: len_def)
    fix i assume "i < length ns'"
    then show "ns' ! i = (map f probs @ drop (length probs) ns) ! i"
      using res(2,4,5) n by (cases "i < length probs") (simp_all add: nth_append)
  qed
  moreover have "ds' = map g probs @ drop (length probs) ds"
  proof (rule nth_equalityI)
    show "length ds' = length (map g probs @ drop (length probs) ds)"
      using res(3) bufs n by (simp add: len_def)
    fix i assume "i < length ds'"
    then show "ds' ! i = (map g probs @ drop (length probs) ds) ! i"
      using res(3,4,5) n by (cases "i < length probs") (simp_all add: nth_append)
  qed
  ultimately show ?thesis
    using res(1)
    by (simp add: convertToNumeratorsAndDenominators_def getLengthOfProbabilities_def len_def
        exported_def f_def g_def)
qed

lemma calculateProbabilities_eq:
  assumes size: "3 \<le> size'" and nL: "0 \<le> numberLower" "numberLower \<le> size'"
    and bufs: "size' - 1 \<le> int (length ns)" "size' - 1 \<le> int (length ds)"
    and fits: "all_fit a size' numberLower"
  shows "calculateProbabilities a ns ds size' numberLower
         = Inr (exported a (cumulative_probabilities size' numberLower) ns ds)"
proof -
  have m: "calculateMatrix a (createMatrix size') size' numberLower = Inr (table size' numberLower)"
    by (rule calculateMatrix_eq) (use size nL fits in \<open>simp_all add: all_fit_def\<close>)
  have p: "calculatePermutations a (createPermutations size') size'
           = Inr (permutation_table size')"
    by (rule calculatePermutations_eq) (use size fits in \<open>simp_all add: all_fit_def\<close>)
  have i: "calculateInternalProbabilities a (table size' numberLower) (createProbabilities size')
             (permutation_table size') size' = Inr (internal_probabilities size' numberLower)"
    by (rule calculateInternalProbabilities_eq) (use size fits in \<open>simp_all add: all_fit_def\<close>)
  have acc: "accumulateProbabilities (internal_probabilities size' numberLower) size'
             = Inr (cumulative_probabilities size' numberLower)"
    unfolding cumulative_probabilities_def
    by (rule accumulateProbabilities_eq) (use size in simp)
  have c: "convertToNumeratorsAndDenominators a ns ds (cumulative_probabilities size' numberLower)
             size' = Inr (exported a (cumulative_probabilities size' numberLower) ns ds)"
    by (rule convertToNumeratorsAndDenominators_eq)
      (use size bufs in \<open>simp_all add: cumulative_probabilities_def\<close>)
  show ?thesis
    by (simp add: calculateProbabilities_def m p i acc c)
qed

lemma sum_list_int_interval: "sum_list xs = (\<Sum>j\<in>{0..<int (length xs)}. (xs ! nat j :: int))"
proof -
  have "sum_list xs = (\<Sum>i\<in>{0..<length xs}. xs ! i)"
    by (rule sum_list_sum_nth)
  also have "\<dots> = (\<Sum>j\<in>{0..<int (length xs)}. xs ! nat j)"
    by (rule sum.reindex_bij_witness[of _ nat int]) auto
  finally show ?thesis .
qed

lemma cut_points_reaches:
  assumes "0 \<le> t" "t < before" "0 \<le> j" "j \<le> before"
  shows "(j < fst (cut_points before t) \<or> snd (cut_points before t) \<le> j) \<longleftrightarrow> reaches before j t"
proof -
  define limit where "limit = (before + 1) div 2"
  have even: "before = 2 * limit" if "before mod 2 = 0"
    using that unfolding limit_def by presburger
  have odd: "before = 2 * limit - 1" if "before mod 2 \<noteq> 0"
    using that unfolding limit_def by presburger
  show ?thesis
  proof (cases "before mod 2 = 0")
    case True
    then show ?thesis
      using assms even[OF True]
      by (simp add: cut_points_def reaches_def Let_def limit_def[symmetric]) linarith
  next
    case False
    then show ?thesis
      using assms odd[OF False]
      by (simp add: cut_points_def reaches_def Let_def limit_def[symmetric]) linarith
  qed
qed

lemma paths_from_reaches:
  assumes "1 \<le> before" "0 \<le> t" "t < before"
  shows "paths_from before t prev
         = (\<Sum>j\<in>{0..before}. if reaches before j t then prev ! nat j else 0)"
proof -
  define k where "k = fst (cut_points before t)"
  define l where "l = snd (cut_points before t)"
  have kl: "0 \<le> k" "k \<le> before + 1" "0 \<le> l" "k \<le> l"
    using cut_points_range[OF assms] by (simp_all add: k_def l_def)
  have split: "{0..<k} \<union> {l..before} = {j \<in> {0..before}. j < k \<or> l \<le> j}"
    using kl by auto
  have "paths_from before t prev = (\<Sum>j\<in>{0..<k} \<union> {l..before}. prev ! nat j)"
    unfolding paths_from_def k_def[symmetric] l_def[symmetric]
    by (rule sum.union_disjoint[symmetric]) (use kl in auto)
  also have "\<dots> = (\<Sum>j\<in>{0..before}. if j < k \<or> l \<le> j then prev ! nat j else 0)"
    unfolding split by (rule sum.inter_filter) simp
  also have "\<dots> = (\<Sum>j\<in>{0..before}. if reaches before j t then prev ! nat j else 0)"
    by (rule sum.cong) (use cut_points_reaches[of t before] assms in \<open>auto simp: k_def l_def\<close>)
  finally show ?thesis .
qed

lemma card_reaches:
  assumes "0 \<le> j" "j \<le> before"
  shows "int (card {t \<in> {0..<before}. reaches before j t})
         = before - numberFailingCards (before + 1) j"
proof (cases "before - j \<ge> j")
  case True
  then have "{t \<in> {0..<before}. reaches before j t} = {j..<before}"
    using assms by (auto simp: reaches_def)
  then show ?thesis
    using True assms by (simp add: numberFailingCards_def)
next
  case False
  then have "{t \<in> {0..<before}. reaches before j t} = {0..<j}"
    using assms by (auto simp: reaches_def)
  then show ?thesis
    using False assms by (simp add: numberFailingCards_def)
qed

lemma sum_list_next_row:
  "sum_list (next_row before prev) = (\<Sum>t\<in>{0..<before}. paths_from before t prev)"
proof -
  have "sum_list (next_row before prev) = (\<Sum>t\<in>set [0..before - 1]. paths_from before t prev)"
    unfolding next_row_def by (rule sum_list_distinct_conv_sum_set) simp
  also have "set [0..before - 1] = {0..<before}" by auto
  finally show ?thesis .
qed

text \<open>
  The identity behind every probability of the programme: the paths into the next row and the
  paths that fail at the next deal are, together, all the ways to deal one more card.
\<close>

lemma next_row_and_failures:
  assumes before: "1 \<le> before" and len: "int (length prev) = before + 1"
  shows "sum_list (next_row before prev) + fail_count (before + 1) prev = before * sum_list prev"
proof -
  have "sum_list (next_row before prev)
        = (\<Sum>t\<in>{0..<before}. \<Sum>j\<in>{0..before}. if reaches before j t then prev ! nat j else 0)"
    unfolding sum_list_next_row
    by (rule sum.cong) (use paths_from_reaches[OF before] in auto)
  also have "\<dots> = (\<Sum>j\<in>{0..before}. \<Sum>t\<in>{0..<before}. if reaches before j t then prev ! nat j else 0)"
    by (rule sum.swap)
  also have "\<dots> = (\<Sum>j\<in>{0..before}. prev ! nat j * (before - numberFailingCards (before + 1) j))"
  proof (rule sum.cong)
    fix j assume j: "j \<in> {0..before}"
    have "(\<Sum>t\<in>{0..<before}. if reaches before j t then prev ! nat j else 0)
          = (\<Sum>t\<in>{t \<in> {0..<before}. reaches before j t}. prev ! nat j)"
      by (rule sum.inter_filter[symmetric]) simp
    also have "\<dots> = prev ! nat j * int (card {t \<in> {0..<before}. reaches before j t})"
      by simp
    also have "\<dots> = prev ! nat j * (before - numberFailingCards (before + 1) j)"
      using card_reaches[of j before] j by simp
    finally show "(\<Sum>t\<in>{0..<before}. if reaches before j t then prev ! nat j else 0)
                  = prev ! nat j * (before - numberFailingCards (before + 1) j)" .
  qed simp
  also have "\<dots> = before * (\<Sum>j\<in>{0..before}. prev ! nat j)
                   - (\<Sum>j\<in>{0..before}. prev ! nat j * numberFailingCards (before + 1) j)"
    by (simp add: right_diff_distrib sum_subtractf sum_distrib_left mult.commute)
  finally have "sum_list (next_row before prev)
      = before * (\<Sum>j\<in>{0..before}. prev ! nat j)
        - (\<Sum>j\<in>{0..before}. prev ! nat j * numberFailingCards (before + 1) j)" .
  moreover have "fail_count (before + 1) prev
      = (\<Sum>j\<in>{0..before}. prev ! nat j * numberFailingCards (before + 1) j)"
    by (simp add: fail_count_def atLeastLessThanPlusOne_atLeastAtMost_int)
  moreover have "sum_list prev = (\<Sum>j\<in>{0..before}. prev ! nat j)"
    by (simp add: sum_list_int_interval len atLeastLessThanPlusOne_atLeastAtMost_int)
  ultimately show ?thesis by simp
qed

lemma table_row_nonneg_all: "\<forall>v\<in>set (table_row size' numberLower s). 0 \<le> v"
  by (auto simp: in_set_conv_nth table_row_nonneg)

lemma sum_list_table_row_nonneg: "0 \<le> sum_list (table_row size' numberLower s)"
  by (rule sum_list_nonneg) (use table_row_nonneg_all in auto)

lemma fail_count_nonneg:
  "0 \<le> fail_count (size' - int n) (table_row size' numberLower n)"
  unfolding fail_count_def
proof (rule sum_nonneg)
  fix j assume j: "j \<in> {0..<size' - int n}"
  have "0 \<le> table_row size' numberLower n ! nat j"
    by (rule table_row_nonneg) (use j in auto)
  moreover have "0 \<le> numberFailingCards (size' - int n) j"
    by (rule numberFailingCards_nonneg) (use j in auto)
  ultimately show "0 \<le> table_row size' numberLower n ! nat j * numberFailingCards (size' - int n) j"
    by simp
qed

lemma stage_probability_nonneg:
  assumes "int n \<le> size' - 2"
  shows "0 \<le> stage_probability size' numberLower n"
proof (cases "int n < size' - 2")
  case True
  have "0 < deals size' (n + 2)" by (rule deals_pos) (use True in simp)
  then show ?thesis
    using True fail_count_nonneg[of size' n numberLower]
    by (simp add: stage_probability_def zero_le_Fract_iff)
next
  case False
  have "0 < deals size' (n + 1)" by (rule deals_pos) (use assms in simp)
  moreover have "0 \<le> table_row size' numberLower n ! 0" "0 \<le> table_row size' numberLower n ! 1"
    by (rule table_row_nonneg, use assms in simp)+
  ultimately show ?thesis
    using False by (simp add: stage_probability_def zero_le_Fract_iff)
qed

lemma survival_step:
  assumes "int n < size' - 2"
  shows "stage_probability size' numberLower n + survival size' numberLower (Suc n)
         = survival size' numberLower n"
proof -
  define before where "before = size' - int (Suc n)"
  define R where "R = sum_list (table_row size' numberLower n)"
  define R' where "R' = sum_list (table_row size' numberLower (Suc n))"
  define F where "F = fail_count (size' - int n) (table_row size' numberLower n)"
  define Q where "Q = deals size' (n + 1)"
  have before: "1 \<le> before" using assms by (simp add: before_def)
  have "sum_list (next_row before (table_row size' numberLower n))
        + fail_count (before + 1) (table_row size' numberLower n)
        = before * sum_list (table_row size' numberLower n)"
    by (rule next_row_and_failures) (use assms in \<open>simp_all add: before_def\<close>)
  then have identity: "R' + F = before * R"
    by (simp add: R_def R'_def F_def before_def)
  have Q': "deals size' (Suc (Suc n)) = Q * before"
    using deals.simps(2)[of size' "Suc n"] by (simp add: Q_def before_def)
  have pos: "0 < Q" "0 < before"
    using before deals_pos[of "n + 1" size'] assms by (simp_all add: Q_def)
  have "stage_probability size' numberLower n + survival size' numberLower (Suc n)
        = Fract F (Q * before) + Fract R' (Q * before)"
    using assms by (simp add: stage_probability_def survival_def F_def R'_def Q')
  also have "\<dots> = of_int (F + R') / of_int (Q * before)"
    by (simp add: Fract_of_int_quotient add_divide_distrib)
  also have "\<dots> = of_int (before * R) / of_int (Q * before)"
    using identity by (simp add: add.commute)
  also have "\<dots> = of_int R / of_int Q"
    using pos by simp
  also have "\<dots> = survival size' numberLower n"
    by (simp add: survival_def R_def Q_def Fract_of_int_quotient)
  finally show ?thesis .
qed

lemma survival_last:
  assumes "2 \<le> size'" "int n = size' - 2"
  shows "stage_probability size' numberLower n = survival size' numberLower n"
proof -
  have "length (table_row size' numberLower n) = 2" using assms by simp
  then obtain x y where "table_row size' numberLower n = [x, y]"
    by (metis (no_types, opaque_lifting) One_nat_def Suc_1 length_0_conv length_Suc_conv)
  then show ?thesis
    using assms by (simp add: stage_probability_def survival_def)
qed

lemma cumulative_eq_survival:
  assumes size: "2 \<le> size'" and n: "n < nat (size' - 1)"
  shows "cumulative_probabilities size' numberLower ! n = survival size' numberLower n"
proof -
  define probs where "probs = internal_probabilities size' numberLower"
  define last where "last = nat (size' - 2)"
  have len: "length probs = Suc last" using size by (simp add: probs_def last_def)
  have "n \<le> last" using n size by (simp add: last_def)
  then have "sum_list (drop n probs) = survival size' numberLower n"
  proof (induction n rule: inc_induct)
    case base
    have "drop last probs = [probs ! last]"
      using len by (metis Cons_nth_drop_Suc drop_all lessI order_refl)
    moreover have "probs ! last = stage_probability size' numberLower last"
      using size by (simp add: probs_def last_def nth_internal_probabilities)
    ultimately show ?case
      using survival_last[of size' last numberLower] size by (simp add: last_def)
  next
    case (step k)
    have k: "k < length probs" "int k < size' - 2"
      using step.hyps len by (simp_all add: last_def)
    have "sum_list (drop k probs) = probs ! k + sum_list (drop (Suc k) probs)"
      by (rule sum_list_drop_step) (rule k)
    moreover have "probs ! k = stage_probability size' numberLower k"
      using k by (simp add: probs_def nth_internal_probabilities)
    ultimately show ?case
      using step.IH survival_step[OF k(2)] by simp
  qed
  then show ?thesis
    using n by (simp add: cumulative_probabilities_def nth_accumulated probs_def)
qed

lemma exported_nth:
  assumes "n < length probs"
  shows "fst (exported a probs ns ds) ! n = mpz_get_ui a (mpq_numref (probs ! n))"
    "snd (exported a probs ns ds) ! n = mpz_get_ui a (mpq_denref (probs ! n))"
  using assms by (simp_all add: exported_def nth_append)

lemma exported_fraction:
  assumes "0 \<le> q"
  shows "Fract (mpz_get_ui Mathematical (mpq_numref q)) (mpz_get_ui Mathematical (mpq_denref q)) = q"
    "0 \<le> mpz_get_ui Mathematical (mpq_numref q)"
    "0 < mpz_get_ui Mathematical (mpq_denref q)"
    "q \<le> 1 \<Longrightarrow> mpz_get_ui Mathematical (mpq_numref q) \<le> mpz_get_ui Mathematical (mpq_denref q)"
proof -
  obtain x y where xy: "quotient_of q = (x, y)" by (cases "quotient_of q")
  have y: "0 < y" using xy by (rule quotient_of_denom_pos)
  have q: "q = of_int x / of_int y" using xy by (rule quotient_of_div)
  have x: "0 \<le> x" using assms y by (simp add: q zero_le_divide_iff)
  have nd: "mpq_numref q = x" "mpq_denref q = y"
    by (simp_all add: mpq_numref_def mpq_denref_def xy)
  show "Fract (mpz_get_ui Mathematical (mpq_numref q)) (mpz_get_ui Mathematical (mpq_denref q)) = q"
    unfolding nd using x y by (simp add: mpz_get_ui_def ulong_of_def q Fract_of_int_quotient)
  show "0 \<le> mpz_get_ui Mathematical (mpq_numref q)"
    by (simp add: mpz_get_ui_def ulong_of_def)
  show "0 < mpz_get_ui Mathematical (mpq_denref q)"
    unfolding nd using y by (simp add: mpz_get_ui_def ulong_of_def)
  show "mpz_get_ui Mathematical (mpq_numref q) \<le> mpz_get_ui Mathematical (mpq_denref q)"
    if "q \<le> 1"
  proof -
    have "(of_int x :: rat) \<le> of_int y" using that y by (simp add: q divide_le_eq_1)
    then have "x \<le> y" by simp
    then show ?thesis
      unfolding nd using x y by (simp add: mpz_get_ui_def ulong_of_def)
  qed
qed

lemma survival_nonneg:
  assumes "int n \<le> size' - 1"
  shows "0 \<le> survival size' numberLower n"
proof -
  have "0 < deals size' (n + 1)" by (rule deals_pos) (use assms in simp)
  then show ?thesis
    using sum_list_table_row_nonneg[of size' numberLower n]
    by (simp add: survival_def zero_le_Fract_iff)
qed

lemma sum_list_first_row_le:
  assumes True: "0 \<le> size'"
  shows "sum_list (first_row size' numberLower) \<le> size'"
proof -
  let ?f = "\<lambda>i. if (if size' - numberLower \<ge> numberLower then numberLower \<le> i else i < numberLower)
                 then 1 else (0::int)"
  have "sum_list (map ?f [0..size' - 1]) \<le> sum_list (map (\<lambda>_. 1) [0..size' - 1])"
    by (rule sum_list_mono) simp
  also have "\<dots> = size'" using True by (simp add: sum_list_triv)
  finally show ?thesis by (simp add: first_row_def)
qed

lemma row_sum_le_deals:
  assumes "int n \<le> size' - 2"
  shows "sum_list (table_row size' numberLower n) \<le> deals size' (n + 1)"
  using assms
proof (induction n)
  case 0
  then show ?case
    using sum_list_first_row_le[of size' numberLower] by (simp add: deals.simps)
next
  case (Suc n)
  define before where "before = size' - int (Suc n)"
  have before: "1 \<le> before" using Suc.prems by (simp add: before_def)
  have "sum_list (next_row before (table_row size' numberLower n))
        + fail_count (before + 1) (table_row size' numberLower n)
        = before * sum_list (table_row size' numberLower n)"
    by (rule next_row_and_failures) (use Suc.prems in \<open>simp_all add: before_def\<close>)
  moreover have "0 \<le> fail_count (before + 1) (table_row size' numberLower n)"
    using fail_count_nonneg[of size' n numberLower] by (simp add: before_def)
  ultimately have "sum_list (table_row size' numberLower (Suc n))
                   \<le> before * sum_list (table_row size' numberLower n)"
    by (simp add: before_def)
  also have "\<dots> \<le> before * deals size' (n + 1)"
    using Suc.IH Suc.prems before by (intro mult_left_mono) auto
  also have "\<dots> = deals size' (Suc n + 1)"
    using deals.simps(2)[of size' "Suc n"] by (simp add: before_def mult.commute)
  finally show ?case .
qed

lemma survival_le_1:
  assumes "int n \<le> size' - 2"
  shows "survival size' numberLower n \<le> 1"
proof -
  have "0 < deals size' (n + 1)" by (rule deals_pos) (use assms in simp)
  then show ?thesis
    using row_sum_le_deals[OF assms, of numberLower]
    by (simp add: survival_def Fract_le_one_iff)
qed

lemma survival_antimono:
  assumes "int n < size' - 2"
  shows "survival size' numberLower (Suc n) \<le> survival size' numberLower n"
  using survival_step[OF assms, of numberLower] stage_probability_nonneg[of n size' numberLower]
    assms by simp

text \<open>What a valid run with at least three cards returns, in terms of the table.\<close>

lemma returned_fractions:
  assumes size: "3 \<le> size'" and nL: "0 \<le> numberLower" "numberLower \<le> size'"
    and bufs: "size' - 1 \<le> int (length ns)" "size' - 1 \<le> int (length ds)"
  shows "\<exists>ns' ds'. calculateProbabilities Mathematical ns ds size' numberLower = Inr (ns', ds')
           \<and> (\<forall>n. n < nat (size' - 1) \<longrightarrow>
                  Fract (ns' ! n) (ds' ! n) = survival size' numberLower n
                  \<and> 0 \<le> ns' ! n \<and> ns' ! n \<le> ds' ! n \<and> 0 < ds' ! n)"
proof -
  let ?c = "cumulative_probabilities size' numberLower"
  have len: "length ?c = nat (size' - 1)"
    by (simp add: cumulative_probabilities_def)
  have run: "calculateProbabilities Mathematical ns ds size' numberLower
             = Inr (exported Mathematical ?c ns ds)"
    by (rule calculateProbabilities_eq) (use assms in simp_all)
  have "Fract (fst (exported Mathematical ?c ns ds) ! n) (snd (exported Mathematical ?c ns ds) ! n)
          = survival size' numberLower n
        \<and> 0 \<le> fst (exported Mathematical ?c ns ds) ! n
        \<and> fst (exported Mathematical ?c ns ds) ! n \<le> snd (exported Mathematical ?c ns ds) ! n
        \<and> 0 < snd (exported Mathematical ?c ns ds) ! n"
    if n: "n < nat (size' - 1)" for n
  proof -
    have c: "?c ! n = survival size' numberLower n"
      by (rule cumulative_eq_survival) (use size n in simp_all)
    have range: "0 \<le> survival size' numberLower n" "survival size' numberLower n \<le> 1"
      using survival_nonneg[of n size' numberLower] survival_le_1[of n size' numberLower] n
      by simp_all
    show ?thesis
      using exported_fraction[OF range(1)] range(2) n len
      by (simp add: exported_nth c)
  qed
  then show ?thesis
    using run by (intro exI[of _ "fst (exported Mathematical ?c ns ds)"]
        exI[of _ "snd (exported Mathematical ?c ns ds)"]) simp
qed

lemma table_fits_size_2: "table_fits a 2 numberLower"
proof -
  have "fits_int a v" if "v \<in> set (first_row 2 numberLower)" for v
  proof -
    have "v = 0 \<or> v = 1" using that by (auto simp: first_row_def)
    then show ?thesis by (auto simp: fits_int_def INT_MIN_def INT_MAX_def)
  qed
  moreover have "table 2 numberLower = [first_row 2 numberLower]"
    by (simp add: table_def)
  ultimately show ?thesis by (simp add: table_fits_def)
qed

lemma calculateProbabilities_size_2:
  assumes "0 \<le> numberLower" "numberLower \<le> 2"
  shows "calculateProbabilities a ns ds 2 numberLower = Inl OutOfBounds"
proof -
  have "calculateMatrix a (createMatrix 2) 2 numberLower = Inr (table 2 numberLower)"
    by (rule calculateMatrix_eq) (use assms table_fits_size_2 in simp_all)
  then show ?thesis
    by (simp add: calculateProbabilities_def calculatePermutations_size_2)
qed

lemma extend_table_rows:
  "extend_table (size' - int s - 1) (table_row size' numberLower s) k
   = map (\<lambda>i. table_row size' numberLower (Suc s + i)) [0..<k]"
proof (induction k arbitrary: s)
  case 0
  then show ?case by simp
next
  case (Suc k)
  have row: "next_row (size' - int s - 1) (table_row size' numberLower s)
             = table_row size' numberLower (Suc s)"
    by (simp add: algebra_simps)
  have "extend_table (size' - int (Suc s) - 1) (table_row size' numberLower (Suc s)) k
        = map (\<lambda>i. table_row size' numberLower (Suc (Suc s) + i)) [0..<k]"
    by (rule Suc.IH)
  moreover have "size' - int (Suc s) - 1 = size' - int s - 1 - 1" by simp
  ultimately have rest: "extend_table (size' - int s - 1 - 1) (table_row size' numberLower (Suc s)) k
        = map (\<lambda>i. table_row size' numberLower (Suc (Suc s) + i)) [0..<k]"
    by simp
  show ?case
    unfolding extend_table.simps row rest map_upt_Suc by simp
qed

lemma table_by_rows:
  assumes "2 \<le> size'"
  shows "table size' numberLower
         = first_row size' numberLower
           # extend_table (size' - 1) (first_row size' numberLower) (nat (size' - 2))"
proof -
  have "nat (size' - 1) = Suc (nat (size' - 2))" using assms by linarith
  then have "table size' numberLower
             = table_row size' numberLower 0
               # map (\<lambda>i. table_row size' numberLower (Suc i)) [0..<nat (size' - 2)]"
    by (simp only: table_def map_upt_Suc)
  then show ?thesis
    using extend_table_rows[of size' 0 numberLower "nat (size' - 2)"] by simp
qed

lemma fits_check_table:
  assumes "2 \<le> size'"
  shows "fits_check a size' (table size' numberLower)
         \<longleftrightarrow> table_fits a size' numberLower \<and> probabilities_fit a size' numberLower"
proof -
  have row: "table size' numberLower ! nat n = table_row size' numberLower (nat n)"
    if "0 \<le> n" "n < size' - 1" for n
    by (rule nth_table) (use that in linarith)
  have stage: "stage_fits a size' (table size' numberLower) n
        \<longleftrightarrow> (\<forall>j\<in>{0..<size' - n}.
              fits_int a (table_row size' numberLower (nat n) ! nat j
                          * numberFailingCards (size' - n) j))
            \<and> fits_long a (fail_count (size' - n) (table_row size' numberLower (nat n)))"
    if "0 \<le> n" "n < size' - 2" for n
    using that by (auto simp: stage_fits_def product_fits_def list_all_iff row)
  have "list_all (stage_fits a size' (table size' numberLower)) [0..size' - 3]
        \<longleftrightarrow> (\<forall>n\<in>{0..<size' - 2}.
              (\<forall>j\<in>{0..<size' - n}.
                 fits_int a (table_row size' numberLower (nat n) ! nat j
                             * numberFailingCards (size' - n) j))
              \<and> fits_long a (fail_count (size' - n) (table_row size' numberLower (nat n))))"
    using stage by (auto simp: list_all_iff)
  then show ?thesis
    using assms by (auto simp: fits_check_def table_fits_def probabilities_fit_def list_all_iff row)
qed

lemma all_fit_by_check:
  assumes "2 \<le> size'" "fits_up_to a size' numberLower" "permutations_fit a size'"
  shows "all_fit a size' numberLower"
  using assms fits_check_table[of size' a numberLower]
  by (simp add: all_fit_def fits_up_to_def table_by_rows)

section \<open>Thirteen cards fit the integer types of C\<close>

lemma fits_evaluated:
  "list_all (\<lambda>size'. list_all (fits_up_to FixedWidth size') [0..size']) [2..13]"
  by code_simp

lemma permutations_evaluated: "list_all (permutations_fit FixedWidth) [2..13]"
  by code_simp

lemma all_fit_up_to_13:
  assumes "2 \<le> size'" "size' \<le> 13" "0 \<le> numberLower" "numberLower \<le> size'"
  shows "all_fit FixedWidth size' numberLower"
proof (rule all_fit_by_check)
  show "2 \<le> size'" by (rule assms)
  have "size' \<in> set [2..13]" unfolding set_upto using assms by simp
  moreover have "numberLower \<in> set [0..size']" unfolding set_upto using assms by simp
  ultimately show "fits_up_to FixedWidth size' numberLower"
    using fits_evaluated unfolding list_all_iff by blast
  show "permutations_fit FixedWidth size'"
    using permutations_evaluated \<open>size' \<in> set [2..13]\<close> unfolding list_all_iff by blast
qed

lemma deals_nonneg_le_power:
  assumes "int k \<le> n"
  shows "0 \<le> deals n k \<and> deals n k \<le> n ^ k"
  using assms
proof (induction k)
  case 0
  then show ?case by (simp add: deals.simps)
next
  case (Suc k)
  then have IH: "0 \<le> deals n k" "deals n k \<le> n ^ k" by simp_all
  have f: "0 \<le> n - int k" "n - int k \<le> n" using Suc.prems by simp_all
  have "deals n k * (n - int k) \<le> n ^ k * n"
    using IH f by (intro mult_mono) auto
  then show ?case using IH f by (simp add: deals.simps mult.commute)
qed

lemma deals_below_2_64:
  assumes "0 \<le> n" "n \<le> 13" "int k \<le> n"
  shows "deals n k < 2 ^ 64"
proof -
  have "deals n k \<le> n ^ k" using deals_nonneg_le_power[OF assms(3)] by simp
  also have "\<dots> \<le> 13 ^ k" using assms by (intro power_mono) auto
  also have "\<dots> \<le> (13::int) ^ 13" using assms by (intro power_increasing) auto
  also have "\<dots> < 2 ^ 64" by simp
  finally show ?thesis .
qed

lemma quotient_of_Fract_denominator:
  assumes "0 < b"
  shows "snd (quotient_of (Fract a b)) \<le> b"
proof -
  define g where "g = gcd a b"
  have g: "1 \<le> g" using assms by (simp add: g_def int_one_le_iff_zero_less)
  have "b div g \<le> b div 1" using assms g by (intro zdiv_mono2) auto
  then show ?thesis
    using assms by (simp add: quotient_of_Fract Rat.normalize_def Let_def g_def)
qed

lemma cumulative_in_64_bits:
  assumes size: "2 \<le> size'" "size' \<le> 13" and n: "n < nat (size' - 1)"
  shows "\<bar>mpq_numref (cumulative_probabilities size' numberLower ! n)\<bar> < 2 ^ 64"
    "\<bar>mpq_denref (cumulative_probabilities size' numberLower ! n)\<bar> < 2 ^ 64"
proof -
  define q where "q = cumulative_probabilities size' numberLower ! n"
  define Q where "Q = deals size' (n + 1)"
  have q: "q = survival size' numberLower n"
    unfolding q_def by (rule cumulative_eq_survival) (use size n in simp_all)
  have Q: "0 < Q" "Q < 2 ^ 64"
    using deals_pos[of "n + 1" size'] deals_below_2_64[of size' "n + 1"] size n
    by (simp_all add: Q_def)
  have range: "0 \<le> q" "q \<le> 1"
    using survival_nonneg[of n size' numberLower] survival_le_1[of n size' numberLower] n
    by (simp_all add: q)
  have den: "mpq_denref q \<le> Q"
    using quotient_of_Fract_denominator[OF Q(1)] by (simp add: q survival_def mpq_denref_def Q_def)
  have e: "0 \<le> mpz_get_ui Mathematical (mpq_numref q)"
    "0 < mpz_get_ui Mathematical (mpq_denref q)"
    "mpz_get_ui Mathematical (mpq_numref q) \<le> mpz_get_ui Mathematical (mpq_denref q)"
    using exported_fraction[OF range(1)] range(2) by simp_all
  have "0 < mpq_denref q"
    by (cases "quotient_of q") (simp add: mpq_denref_def quotient_of_denom_pos)
  then have "\<bar>mpq_denref q\<bar> \<le> Q" "\<bar>mpq_numref q\<bar> \<le> \<bar>mpq_denref q\<bar>"
    using den e by (simp_all add: mpz_get_ui_def ulong_of_def)
  then show "\<bar>mpq_numref (cumulative_probabilities size' numberLower ! n)\<bar> < 2 ^ 64"
    "\<bar>mpq_denref (cumulative_probabilities size' numberLower ! n)\<bar> < 2 ^ 64"
    using Q(2) by (simp_all add: q_def)
qed

lemma mpz_get_ui_in_64_bits: "\<bar>z\<bar> < 2 ^ 64 \<Longrightarrow> mpz_get_ui FixedWidth z = mpz_get_ui Mathematical z"
  by (simp add: mpz_get_ui_def ulong_of_def)

lemma exported_up_to_13:
  assumes size: "2 \<le> size'" "size' \<le> 13"
  shows "exported FixedWidth (cumulative_probabilities size' numberLower) ns ds
         = exported Mathematical (cumulative_probabilities size' numberLower) ns ds"
proof -
  let ?c = "cumulative_probabilities size' numberLower"
  have len: "length ?c = nat (size' - 1)" by (simp add: cumulative_probabilities_def)
  have "mpz_get_ui FixedWidth (mpq_numref q) = mpz_get_ui Mathematical (mpq_numref q)
        \<and> mpz_get_ui FixedWidth (mpq_denref q) = mpz_get_ui Mathematical (mpq_denref q)"
    if "q \<in> set ?c" for q
  proof -
    from that obtain n where "n < length ?c" "q = ?c ! n" by (auto simp: in_set_conv_nth)
    then show ?thesis
      using cumulative_in_64_bits[OF size, of n numberLower] len
      by (simp add: mpz_get_ui_in_64_bits)
  qed
  then show ?thesis by (simp add: exported_def)
qed

text \<open>
  Claim C9. For every input with \<open>2 \<le> size \<le> 13\<close> and \<open>0 \<le> numberLower \<le> size\<close>, every value the
  run computes fits its C type: each table entry and each partial sum of a row (\<open>int\<close>), each
  product of an entry with \<open>numberFailingCards\<close> (\<open>int\<close>), each accumulated sum and each entry of
  the permutation table (\<open>long\<close>), and each reported numerator and denominator
  (\<open>unsigned long\<close>). So the run with 32 and 64 bits never overflows and returns what the run on
  unbounded integers returns.
\<close>

theorem fixed_width_agrees:
  assumes "2 \<le> size'" "size' \<le> 13" "0 \<le> numberLower" "numberLower \<le> size'"
    and "size' - 1 \<le> int (length ns)" "size' - 1 \<le> int (length ds)"
  shows "all_fit FixedWidth size' numberLower
         \<and> calculateProbabilities FixedWidth ns ds size' numberLower
           = calculateProbabilities Mathematical ns ds size' numberLower
         \<and> calculateProbabilities FixedWidth ns ds size' numberLower \<noteq> Inl IntegerOverflow
         \<and> (\<forall>q\<in>set (cumulative_probabilities size' numberLower).
               \<bar>mpq_numref q\<bar> < 2 ^ 64 \<and> \<bar>mpq_denref q\<bar> < 2 ^ 64)"
proof (intro conjI)
  show fit: "all_fit FixedWidth size' numberLower"
    by (rule all_fit_up_to_13) (rule assms)+
  show "\<forall>q\<in>set (cumulative_probabilities size' numberLower).
          \<bar>mpq_numref q\<bar> < 2 ^ 64 \<and> \<bar>mpq_denref q\<bar> < 2 ^ 64"
  proof
    fix q assume "q \<in> set (cumulative_probabilities size' numberLower)"
    then obtain n where "n < nat (size' - 1)" "q = cumulative_probabilities size' numberLower ! n"
      by (auto simp: in_set_conv_nth cumulative_probabilities_def)
    then show "\<bar>mpq_numref q\<bar> < 2 ^ 64 \<and> \<bar>mpq_denref q\<bar> < 2 ^ 64"
      using cumulative_in_64_bits[OF assms(1,2), of n numberLower] by simp
  qed
  consider "size' = 2" | "3 \<le> size'" using assms(1) by linarith
  then have "\<exists>r. calculateProbabilities FixedWidth ns ds size' numberLower = r
               \<and> calculateProbabilities Mathematical ns ds size' numberLower = r
               \<and> r \<noteq> Inl IntegerOverflow"
  proof cases
    case 1
    have "calculateProbabilities FixedWidth ns ds 2 numberLower = Inl OutOfBounds"
      "calculateProbabilities Mathematical ns ds 2 numberLower = Inl OutOfBounds"
      by (rule calculateProbabilities_size_2; use 1 assms in simp)+
    then show ?thesis using 1 by simp
  next
    case 2
    have "calculateProbabilities FixedWidth ns ds size' numberLower
          = Inr (exported FixedWidth (cumulative_probabilities size' numberLower) ns ds)"
      by (rule calculateProbabilities_eq) (use 2 assms fit in simp_all)
    moreover have "calculateProbabilities Mathematical ns ds size' numberLower
          = Inr (exported Mathematical (cumulative_probabilities size' numberLower) ns ds)"
      by (rule calculateProbabilities_eq) (use 2 assms in simp_all)
    ultimately show ?thesis
      using exported_up_to_13[OF assms(1,2)] by simp
  qed
  then obtain r where r: "calculateProbabilities FixedWidth ns ds size' numberLower = r"
    "calculateProbabilities Mathematical ns ds size' numberLower = r" "r \<noteq> Inl IntegerOverflow"
    by blast
  show "calculateProbabilities FixedWidth ns ds size' numberLower
        = calculateProbabilities Mathematical ns ds size' numberLower"
    using r by simp
  show "calculateProbabilities FixedWidth ns ds size' numberLower \<noteq> Inl IntegerOverflow"
    using r by simp
qed

theorem fixed_width_agrees_witness:
  "all_fit FixedWidth 13 0
   \<and> calculateProbabilities FixedWidth (createProbabilitiesResult 13) (createProbabilitiesResult 13) 13 0
     = calculateProbabilities Mathematical (createProbabilitiesResult 13) (createProbabilitiesResult 13) 13 0
   \<and> calculateProbabilities FixedWidth (createProbabilitiesResult 13) (createProbabilitiesResult 13) 13 0
     \<noteq> Inl IntegerOverflow"
proof -
  have len: "13 - 1 \<le> int (length (createProbabilitiesResult 13))"
    by (simp add: createProbabilitiesResult_def getLengthOfProbabilities_def)
  have "(2::int) \<le> 13" "(13::int) \<le> 13" "(0::int) \<le> 0" "(0::int) \<le> 13" by simp_all
  from fixed_width_agrees[OF this len len] show ?thesis by blast
qed

section \<open>Inputs outside the precondition, and the deck of two cards\<close>

lemma initialiseFirstStage_negative:
  assumes "0 \<le> size'" "numberLower < 0"
  shows "initialiseFirstStage (createMatrix size') size' numberLower = Inl OutOfBounds"
proof -
  have "matrix_set (createMatrix size') 0 numberLower (1::int) = Inl OutOfBounds"
    using assms by (auto simp: matrix_set_def array_get_def array_set_def)
  then have "for_loop numberLower size' (\<lambda>i m. matrix_set m 0 i 1) (createMatrix size')
             = Inl OutOfBounds"
    using assms by (simp add: for_loop_step)
  then show ?thesis
    using assms by (simp add: initialiseFirstStage_def)
qed

lemma first_row_filled:
  assumes m: "0 < length m" "length (m ! 0) = nat size'" and size: "0 \<le> size'"
  shows "\<exists>row. for_loop 0 size' (\<lambda>i m'. matrix_set m' 0 i (1::int)) m = Inr (m[0 := row])
               \<and> length row = nat size'"
proof -
  let ?I = "\<lambda>(j::int) t. \<exists>row. t = m[0 := row] \<and> length row = nat size'"
  have "\<exists>t. for_loop 0 size' (\<lambda>i m'. matrix_set m' 0 i (1::int)) m = Inr t \<and> ?I size' t"
  proof (rule for_loop_invariant[where I = ?I])
    have "m = m[0 := m ! 0]" by simp
    then show "?I 0 m" using m by blast
    show "0 \<le> size'" by (rule size)
  next
    fix j t
    assume j: "0 \<le> j" "j < size'" and "?I j t"
    then obtain row where row: "t = m[0 := row]" "length row = nat size'" by blast
    have t0: "t ! 0 = row" and len_t: "0 < length t" using m by (simp_all add: row(1))
    have "matrix_set t 0 j 1 = Inr (t[nat 0 := (t ! nat 0)[nat j := 1]])"
      by (rule matrix_set_in) (use len_t j row(2) in \<open>auto simp: t0\<close>)
    then have "matrix_set t 0 j 1 = Inr (m[0 := row[nat j := 1]])"
      by (simp add: t0) (simp add: row(1))
    then show "\<exists>t'. matrix_set t 0 j 1 = Inr t' \<and> ?I (j + 1) t'"
      using row(2) by auto
  qed
  then show ?thesis by blast
qed

lemma initialiseFirstStage_too_large:
  assumes "2 \<le> size'" "size' < numberLower"
  shows "initialiseFirstStage (createMatrix size') size' numberLower = Inl OutOfBounds"
proof -
  let ?body = "\<lambda>i m'. matrix_set m' 0 i (1::int)"
  let ?m = "createMatrix size'"
  let ?I = "\<lambda>(j::int) t. \<exists>row. t = ?m[0 := row] \<and> length row = nat size'"
  have m: "0 < length ?m" "length (?m ! 0) = nat size'"
    using assms by (simp_all add: nth_createMatrix)
  have "for_loop 0 numberLower ?body ?m = Inl OutOfBounds"
  proof (rule for_loop_fails[where I = ?I and ?j0.0 = size'])
    have "?m = ?m[0 := ?m ! 0]" by simp
    then show "?I 0 ?m" using m by blast
    show "0 \<le> size'" "size' < numberLower" using assms by simp_all
  next
    fix j t
    assume j: "0 \<le> j" "j < size'" and "?I j t"
    then obtain row where row: "t = ?m[0 := row]" "length row = nat size'" by blast
    have t0: "t ! 0 = row" and len_t: "0 < length t" using m by (simp_all add: row(1))
    have "matrix_set t 0 j 1 = Inr (t[nat 0 := (t ! nat 0)[nat j := 1]])"
      by (rule matrix_set_in) (use len_t j row(2) in \<open>auto simp: t0\<close>)
    then have "matrix_set t 0 j 1 = Inr (?m[0 := row[nat j := 1]])"
      by (simp add: t0) (simp add: row(1))
    then show "\<exists>t'. matrix_set t 0 j 1 = Inr t' \<and> ?I (j + 1) t'"
      using row(2) by auto
  next
    fix t assume "?I size' t"
    then obtain row where row: "t = ?m[0 := row]" "length row = nat size'" by blast
    have t0: "t ! 0 = row" and len_t: "0 < length t" using m by (simp_all add: row(1))
    show "matrix_set t 0 size' 1 = Inl OutOfBounds"
      using len_t row(2) assms by (simp add: matrix_set_def t0 array_set_out)
  qed
  moreover have "size' - numberLower < numberLower" using assms by simp
  ultimately show ?thesis
    by (simp add: initialiseFirstStage_def)
qed

lemma invalid_numberLower:
  assumes "2 \<le> size'" "numberLower < 0 \<or> size' < numberLower"
  shows "initialiseFirstStage (createMatrix size') size' numberLower = Inl OutOfBounds"
    "calculateMatrix a (createMatrix size') size' numberLower = Inl OutOfBounds"
    "calculateProbabilities a ns ds size' numberLower = Inl OutOfBounds"
proof -
  show first: "initialiseFirstStage (createMatrix size') size' numberLower = Inl OutOfBounds"
    using assms initialiseFirstStage_negative[of size' numberLower]
      initialiseFirstStage_too_large[of size' numberLower] by auto
  then show m: "calculateMatrix a (createMatrix size') size' numberLower = Inl OutOfBounds"
    by (simp add: calculateMatrix_def)
  then show "calculateProbabilities a ns ds size' numberLower = Inl OutOfBounds"
    by (simp add: calculateProbabilities_def)
qed

lemma main_query_asserts:
  "MAX_SIZE < size' \<Longrightarrow> main_query a (ns, ds) size' numberLower = Inl AssertionFailed"
  by (simp add: main_query_def)

lemma main_query_fails:
  "size' \<le> MAX_SIZE \<Longrightarrow> calculateProbabilities a ns ds size' numberLower = Inl e \<Longrightarrow>
   main_query a (ns, ds) size' numberLower = Inl e"
  by (simp add: main_query_def)

text \<open>
  Claim C10, as amended. \<open>calculateProbabilities\<close> checks nothing: it allocates the table and
  starts to fill it whatever the input is. For every \<open>size \<ge> 2\<close> and every \<open>numberLower\<close> outside
  \<open>[0, size]\<close> the table is allocated and the run ends inside \<open>initialiseFirstStage\<close>, in a write
  outside row 0 (for \<open>numberLower > size\<close> after all \<open>size\<close> cells of row 0 have been written).
  In C that write is undefined behaviour, not an error reported to the caller. The one check of
  the repository is the assertion \<open>size \<le> MAX_SIZE\<close> of \<^verbatim>\<open>main\<close>, made before the call.
\<close>

theorem no_input_validation:
  assumes "2 \<le> size'" "numberLower < 0 \<or> size' < numberLower"
  shows "length (createMatrix size') = nat (size' - 1) \<and> createMatrix size' \<noteq> []
         \<and> initialiseFirstStage (createMatrix size') size' numberLower = Inl OutOfBounds
         \<and> calculateMatrix a (createMatrix size') size' numberLower = Inl OutOfBounds
         \<and> calculateProbabilities a ns ds size' numberLower = Inl OutOfBounds
         \<and> main_query a (ns, ds) size' numberLower
           = (if size' \<le> MAX_SIZE then Inl OutOfBounds else Inl AssertionFailed)
         \<and> (size' < numberLower \<longrightarrow>
              (\<exists>row. for_loop 0 size' (\<lambda>i m. matrix_set m 0 i 1) (createMatrix size')
                       = Inr ((createMatrix size')[0 := row]) \<and> length row = nat size'))"
proof -
  have len: "length (createMatrix size') = nat (size' - 1)" "createMatrix size' \<noteq> []"
    using assms by (simp_all flip: length_greater_0_conv)
  have filled: "\<exists>row. for_loop 0 size' (\<lambda>i m. matrix_set m 0 i 1) (createMatrix size')
                       = Inr ((createMatrix size')[0 := row]) \<and> length row = nat size'"
    by (rule first_row_filled) (use assms in \<open>simp_all add: nth_createMatrix\<close>)
  show ?thesis
    using len filled invalid_numberLower[OF assms]
      main_query_asserts[of size' a ns ds numberLower]
      main_query_fails[of size' a ns ds numberLower OutOfBounds]
    by simp
qed

theorem no_input_validation_witness:
  "length (createMatrix 3) = nat (3 - 1) \<and> createMatrix 3 \<noteq> []
   \<and> initialiseFirstStage (createMatrix 3) 3 4 = Inl OutOfBounds
   \<and> calculateMatrix FixedWidth (createMatrix 3) 3 4 = Inl OutOfBounds
   \<and> calculateProbabilities FixedWidth [0, 0] [0, 0] 3 4 = Inl OutOfBounds
   \<and> main_query FixedWidth ([0, 0], [0, 0]) 3 4 = Inl OutOfBounds"
  using no_input_validation[of 3 4 FixedWidth "[0, 0]" "[0, 0]"] by (simp add: MAX_SIZE_def)

text \<open>
  The claim as stated fails at \<open>size = 3\<close>, \<open>numberLower = 4\<close>: the table is allocated, three
  cells of row 0 are written, and only the fourth write is outside the row. It fails as well
  at \<open>size = 14\<close>, beyond the supported range, where the run on unbounded integers returns its
  thirteen pairs.
\<close>

theorem table_built_before_failure_counterexample:
  "createMatrix 3 = [[0, 0, 0], [0, 0]]
   \<and> for_loop 0 3 (\<lambda>i m. matrix_set m 0 i 1) (createMatrix 3) = Inr [[1, 1, 1], [0, 0]]
   \<and> matrix_set [[1, 1, 1], [0, 0]] 0 3 (1::int) = Inl OutOfBounds
   \<and> initialiseFirstStage (createMatrix 3) 3 4 = Inl OutOfBounds
   \<and> calculateProbabilities FixedWidth [0, 0] [0, 0] 3 4 = Inl OutOfBounds
   \<and> main_query FixedWidth (createProbabilitiesResult MAX_SIZE, createProbabilitiesResult MAX_SIZE) 3 4
     = Inl OutOfBounds
   \<and> (\<exists>r. calculateProbabilities Mathematical
             (createProbabilitiesResult 14) (createProbabilitiesResult 14) 14 0 = Inr r)"
proof (intro conjI)
  show "createMatrix 3 = [[0, 0, 0], [0, 0]]" by code_simp
  show "for_loop 0 3 (\<lambda>i m. matrix_set m 0 i 1) (createMatrix 3) = Inr [[1, 1, 1], [0, 0]]"
    by code_simp
  show "matrix_set [[1, 1, 1], [0, 0]] 0 3 (1::int) = Inl OutOfBounds" by code_simp
  show "initialiseFirstStage (createMatrix 3) 3 4 = Inl OutOfBounds"
    by (rule invalid_numberLower) simp_all
  show c: "calculateProbabilities FixedWidth [0, 0] [0, 0] 3 4 = Inl OutOfBounds"
    by (rule invalid_numberLower) simp_all
  have "calculateProbabilities FixedWidth (createProbabilitiesResult MAX_SIZE)
          (createProbabilitiesResult MAX_SIZE) 3 4 = Inl OutOfBounds"
    by (rule invalid_numberLower) simp_all
  then show "main_query FixedWidth
          (createProbabilitiesResult MAX_SIZE, createProbabilitiesResult MAX_SIZE) 3 4
        = Inl OutOfBounds"
    by (intro main_query_fails) (simp_all add: MAX_SIZE_def)
  have "calculateProbabilities Mathematical
          (createProbabilitiesResult 14) (createProbabilitiesResult 14) 14 0
        = Inr (exported Mathematical (cumulative_probabilities 14 0)
                 (createProbabilitiesResult 14) (createProbabilitiesResult 14))"
    by (rule calculateProbabilities_eq)
      (simp_all add: createProbabilitiesResult_def getLengthOfProbabilities_def)
  then show "\<exists>r. calculateProbabilities Mathematical
             (createProbabilitiesResult 14) (createProbabilitiesResult 14) 14 0 = Inr r"
    by blast
qed

text \<open>
  Claim C5. For every valid input of at least three cards the run returns, so none of its
  array accesses is out of bounds. With two cards the claim fails: the permutation table has
  no entry, \<open>calculatePermutations\<close> passes its guard \<open>size > 0\<close> and writes index 0, and
  \<open>getNumberShuffles\<close> reads index \<open>-1\<close>; the table itself is built without fault.
\<close>

theorem permutation_table_out_of_bounds:
  "(3 \<le> size' \<and> 0 \<le> numberLower \<and> numberLower \<le> size'
      \<and> size' - 1 \<le> int (length ns) \<and> size' - 1 \<le> int (length ds)
    \<longrightarrow> (\<exists>r. calculateProbabilities Mathematical ns ds size' numberLower = Inr r))
   \<and> createPermutations 2 = []
   \<and> calculatePermutations a (createPermutations 2) 2 = Inl OutOfBounds
   \<and> getNumberShuffles permutations 2 = array_get permutations (- 1)
   \<and> getNumberShuffles permutations 2 = Inl OutOfBounds
   \<and> (0 \<le> lower \<and> lower \<le> 2 \<longrightarrow>
        calculateMatrix a (createMatrix 2) 2 lower = Inr [first_row 2 lower]
        \<and> calculateProbabilities a ns ds 2 lower = Inl OutOfBounds)"
proof (intro conjI impI)
  assume "3 \<le> size' \<and> 0 \<le> numberLower \<and> numberLower \<le> size'
      \<and> size' - 1 \<le> int (length ns) \<and> size' - 1 \<le> int (length ds)"
  then have "calculateProbabilities Mathematical ns ds size' numberLower
             = Inr (exported Mathematical (cumulative_probabilities size' numberLower) ns ds)"
    by (intro calculateProbabilities_eq) simp_all
  then show "\<exists>r. calculateProbabilities Mathematical ns ds size' numberLower = Inr r"
    by blast
next
  show "createPermutations 2 = []"
    by (simp add: createPermutations_def getLengthOfPermutations_def)
  show "calculatePermutations a (createPermutations 2) 2 = Inl OutOfBounds"
    by (rule calculatePermutations_size_2)
  show "getNumberShuffles permutations 2 = array_get permutations (- 1)"
    by (simp add: getNumberShuffles_def getLengthOfPermutations_def)
  show "getNumberShuffles permutations 2 = Inl OutOfBounds"
    by (simp add: getNumberShuffles_def getLengthOfPermutations_def array_get_out)
next
  assume l: "0 \<le> lower \<and> lower \<le> 2"
  have "calculateMatrix a (createMatrix 2) 2 lower = Inr (table 2 lower)"
    by (rule calculateMatrix_eq) (use l table_fits_size_2 in simp_all)
  then show "calculateMatrix a (createMatrix 2) 2 lower = Inr [first_row 2 lower]"
    by (simp add: table_def)
  show "calculateProbabilities a ns ds 2 lower = Inl OutOfBounds"
    by (rule calculateProbabilities_size_2) (use l in simp_all)
qed

theorem permutation_table_out_of_bounds_witness:
  "(\<exists>r. calculateProbabilities Mathematical [0, 0] [0, 0] 3 1 = Inr r)
   \<and> calculatePermutations FixedWidth (createPermutations 2) 2 = Inl OutOfBounds
   \<and> getNumberShuffles (createPermutations 2) 2 = Inl OutOfBounds
   \<and> calculateMatrix FixedWidth (createMatrix 2) 2 0 = Inr [[1, 1]]
   \<and> calculateProbabilities FixedWidth [0] [0] 2 0 = Inl OutOfBounds"
  using permutation_table_out_of_bounds[of 3 1 "[0, 0]" "[0, 0]" FixedWidth
      "createPermutations 2" 0]
    permutation_table_out_of_bounds[of 3 1 "[0]" "[0]" FixedWidth "createPermutations 2" 0]
  by (simp add: first_row_def upto.simps array_get_def)

section \<open>The table and the fractions against exhaustive enumeration\<close>

text \<open>
  The rank of a card among the cards that remain: dealing the card of rank \<open>t\<close> leaves \<open>t\<close>
  cards lower than the last one, and for each \<open>t\<close> exactly one card does so.
\<close>

lemma rank_in_less:
  assumes "finite R" "d \<in> R" "e \<in> R" "d < e"
  shows "rank_in R d < rank_in R e"
  unfolding rank_in_def
proof (rule psubset_card_mono)
  show "finite {r \<in> R. r < e}" using assms by simp
  show "{r \<in> R. r < d} \<subset> {r \<in> R. r < e}" using assms by auto
qed

lemma rank_in_inj: "finite R \<Longrightarrow> inj_on (rank_in R) R"
proof (rule inj_onI)
  fix d e assume "finite R" "d \<in> R" "e \<in> R" "rank_in R d = rank_in R e"
  then show "d = e"
    using rank_in_less[of R d e] rank_in_less[of R e d] by (cases d e rule: linorder_cases) simp_all
qed

lemma rank_in_bound:
  assumes "finite R" "d \<in> R"
  shows "rank_in R d < card R"
  unfolding rank_in_def
proof (rule psubset_card_mono)
  show "finite R" by (rule assms)
  show "{r \<in> R. r < d} \<subset> R" using assms by auto
qed

lemma rank_in_image:
  assumes "finite R"
  shows "rank_in R ` R = {0..<card R}"
proof (rule card_subset_eq)
  show "finite {0..<card R}" by simp
  show "rank_in R ` R \<subseteq> {0..<card R}" using rank_in_bound[OF assms] by auto
  show "card (rank_in R ` R) = card {0..<card R}"
    using rank_in_inj[OF assms] by (simp add: card_image)
qed

lemma card_of_rank:
  assumes "finite R" "t < card R"
  shows "card {d \<in> R. rank_in R d = t} = 1"
proof -
  have "t \<in> rank_in R ` R" using assms by (simp add: rank_in_image)
  then obtain d where d: "d \<in> R" "rank_in R d = t" by auto
  have "{d \<in> R. rank_in R d = t} = {d}"
    using d rank_in_inj[OF assms(1)] by (auto dest: inj_onD)
  then show ?thesis by simp
qed

lemma rank_in_side:
  assumes "finite R" "d \<in> R"
  shows "\<theta> \<le> d \<longleftrightarrow> card {r \<in> R. r < \<theta>} \<le> rank_in R d"
proof
  assume "\<theta> \<le> d"
  then have "{r \<in> R. r < \<theta>} \<subseteq> {r \<in> R. r < d}" by auto
  moreover have "finite {r \<in> R. r < d}" using assms by simp
  ultimately show "card {r \<in> R. r < \<theta>} \<le> rank_in R d"
    unfolding rank_in_def by (rule card_mono[rotated])
next
  assume le: "card {r \<in> R. r < \<theta>} \<le> rank_in R d"
  show "\<theta> \<le> d"
  proof (rule ccontr)
    assume "\<not> \<theta> \<le> d"
    then have lt: "d < \<theta>" by simp
    have "{r \<in> R. r < d} \<subseteq> {r \<in> R. r < \<theta>}" using lt by auto
    moreover have "d \<in> {r \<in> R. r < \<theta>}" "d \<notin> {r \<in> R. r < d}" using lt assms by simp_all
    ultimately have "{r \<in> R. r < d} \<subset> {r \<in> R. r < \<theta>}" by blast
    moreover have "finite {r \<in> R. r < \<theta>}" using assms by simp
    ultimately have "rank_in R d < card {r \<in> R. r < \<theta>}"
      unfolding rank_in_def by (rule psubset_card_mono[rotated])
    then show False using le by simp
  qed
qed

lemma rank_in_remove: "rank_in (R - {d}) d = rank_in R d"
proof -
  have "{r \<in> R - {d}. r < d} = {r \<in> R. r < d}" by auto
  then show ?thesis by (simp add: rank_in_def)
qed

lemma always_correct_snoc:
  "always_correct size' numberLower (ds @ [d])
   \<longleftrightarrow> always_correct size' numberLower ds \<and> correct_deal size' numberLower ds d"
  by (auto simp: always_correct_def less_Suc_eq nth_append)

lemma finite_ordered_deals [simp]: "finite (ordered_deals size' k)"
proof (rule finite_subset)
  show "ordered_deals size' k \<subseteq> {ds. set ds \<subseteq> deck size' \<and> length ds = k}"
    by (auto simp: ordered_deals_def)
  show "finite {ds. set ds \<subseteq> deck size' \<and> length ds = k}"
    by (rule finite_lists_length_eq) (simp add: deck_def)
qed

lemma finite_remaining [simp]: "finite (remaining size' dealt)"
  by (simp add: remaining_def deck_def)

lemma card_remaining:
  assumes "ds \<in> ordered_deals size' k" "0 \<le> size'"
  shows "int (card (remaining size' ds)) = size' - int k" "int k \<le> size'"
proof -
  have sub: "set ds \<subseteq> deck size'" and len: "card (set ds) = k"
    using assms by (auto simp: ordered_deals_def distinct_card)
  have "card (set ds) \<le> card (deck size')"
    by (rule card_mono) (use sub in \<open>simp_all add: deck_def\<close>)
  then have k: "k \<le> nat size'" using len by (simp add: deck_def)
  then show "int k \<le> size'" using assms(2) by linarith
  have "card (remaining size' ds) = card (deck size') - card (set ds)"
    unfolding remaining_def by (rule card_Diff_subset) (use sub in simp_all)
  then show "int (card (remaining size' ds)) = size' - int k"
    using k len assms(2) by (simp add: deck_def)
qed

lemma ordered_deals_Suc:
  "ordered_deals size' (Suc k)
   = (\<Union>ds\<in>ordered_deals size' k. (\<lambda>d. ds @ [d]) ` remaining size' ds)"
proof (intro set_eqI iffI)
  fix xs assume xs: "xs \<in> ordered_deals size' (Suc k)"
  then have "xs \<noteq> []" by (auto simp: ordered_deals_def)
  then obtain ds d where snoc: "xs = ds @ [d]" by (metis rev_exhaust)
  then have "ds \<in> ordered_deals size' k" "d \<in> remaining size' ds"
    using xs by (auto simp: ordered_deals_def remaining_def)
  then show "xs \<in> (\<Union>ds\<in>ordered_deals size' k. (\<lambda>d. ds @ [d]) ` remaining size' ds)"
    using snoc by blast
next
  fix xs assume "xs \<in> (\<Union>ds\<in>ordered_deals size' k. (\<lambda>d. ds @ [d]) ` remaining size' ds)"
  then show "xs \<in> ordered_deals size' (Suc k)"
    by (auto simp: ordered_deals_def remaining_def)
qed

lemma lower_count_snoc:
  "lower_count size' numberLower (ds @ [d]) = int (rank_in (remaining size' ds) d)"
proof -
  have "remaining size' (ds @ [d]) = remaining size' ds - {d}"
    by (auto simp: remaining_def)
  then have "lower_count size' numberLower (ds @ [d]) = int (rank_in (remaining size' ds - {d}) d)"
    by (simp add: lower_count_def last_played_def rank_in_def)
  then show ?thesis
    by (simp only: rank_in_remove)
qed

lemma counts_add_up:
  "lower_count size' numberLower dealt + higher_count size' numberLower dealt
   = int (card (remaining size' dealt))"
proof -
  let ?R = "remaining size' dealt" and ?c = "last_played numberLower dealt"
  have "card ({r \<in> ?R. r < ?c} \<union> {r \<in> ?R. ?c \<le> r})
        = card {r \<in> ?R. r < ?c} + card {r \<in> ?R. ?c \<le> r}"
    by (rule card_Un_disjoint) auto
  moreover have "{r \<in> ?R. r < ?c} \<union> {r \<in> ?R. ?c \<le> r} = ?R" by auto
  ultimately show ?thesis by (simp add: lower_count_def higher_count_def)
qed

lemma lower_count_range:
  "0 \<le> lower_count size' numberLower dealt"
  "lower_count size' numberLower dealt \<le> int (card (remaining size' dealt))"
proof -
  show "0 \<le> lower_count size' numberLower dealt" by (simp add: lower_count_def)
  have "0 \<le> higher_count size' numberLower dealt" by (simp add: higher_count_def)
  then show "lower_count size' numberLower dealt \<le> int (card (remaining size' dealt))"
    using counts_add_up[of size' numberLower dealt] by linarith
qed

lemma correct_deal_reaches:
  assumes "d \<in> remaining size' ds"
  shows "correct_deal size' numberLower ds d
         \<longleftrightarrow> reaches (int (card (remaining size' ds))) (lower_count size' numberLower ds)
               (int (rank_in (remaining size' ds) d))"
proof -
  let ?R = "remaining size' ds" and ?c = "last_played numberLower ds"
  have side: "?c \<le> d \<longleftrightarrow> lower_count size' numberLower ds \<le> int (rank_in ?R d)"
    using rank_in_side[of ?R d ?c] assms by (simp add: lower_count_def)
  have "predicts_higher size' numberLower ds
        \<longleftrightarrow> int (card ?R) - lower_count size' numberLower ds \<ge> lower_count size' numberLower ds"
    unfolding predicts_higher_def using counts_add_up[of size' numberLower ds] by linarith
  then show ?thesis
    using side by (auto simp: correct_deal_def reaches_def)
qed

lemma next_cards:
  assumes t: "0 \<le> t" "t < int (card (remaining size' ds))"
  shows "int (card {d \<in> remaining size' ds.
                    correct_deal size' numberLower ds d \<and> int (rank_in (remaining size' ds) d) = t})
         = (if reaches (int (card (remaining size' ds))) (lower_count size' numberLower ds) t
            then 1 else 0)"
proof -
  let ?R = "remaining size' ds"
  let ?reach = "reaches (int (card ?R)) (lower_count size' numberLower ds) t"
  have "{d \<in> ?R. correct_deal size' numberLower ds d \<and> int (rank_in ?R d) = t}
        = (if ?reach then {d \<in> ?R. rank_in ?R d = nat t} else {})"
    using correct_deal_reaches[of _ size' ds numberLower] t by auto
  moreover have "card {d \<in> ?R. rank_in ?R d = nat t} = 1"
    by (rule card_of_rank) (use t in simp_all)
  ultimately show ?thesis by simp
qed

lemma finite_correct_deals [simp]: "finite (correct_deals size' numberLower k)"
  by (simp add: correct_deals_def)

lemma finite_brute_force_paths [simp]: "finite (brute_force_paths size' numberLower k t)"
  by (simp add: brute_force_paths_def)

lemma brute_force_paths_correct_deals:
  "brute_force_paths size' numberLower k t
   = {ds \<in> correct_deals size' numberLower k. lower_count size' numberLower ds = t}"
  by (auto simp: brute_force_paths_def correct_deals_def)

lemma card_snoc_union:
  assumes "finite D" "\<And>ds. ds \<in> D \<Longrightarrow> finite (N ds)"
  shows "card (\<Union>ds\<in>D. (\<lambda>d. ds @ [d]) ` N ds) = (\<Sum>ds\<in>D. card (N ds))"
proof -
  have "card (\<Union>ds\<in>D. (\<lambda>d. ds @ [d]) ` N ds) = (\<Sum>ds\<in>D. card ((\<lambda>d. ds @ [d]) ` N ds))"
    by (rule card_UN_disjoint) (use assms in auto)
  also have "\<dots> = (\<Sum>ds\<in>D. card (N ds))"
    by (rule sum.cong) (auto intro!: card_image inj_onI)
  finally show ?thesis .
qed

lemma brute_force_paths_Suc:
  "brute_force_paths size' numberLower (Suc k) t
   = (\<Union>ds\<in>correct_deals size' numberLower k.
        (\<lambda>d. ds @ [d]) ` {d \<in> remaining size' ds.
           correct_deal size' numberLower ds d \<and> int (rank_in (remaining size' ds) d) = t})"
  unfolding brute_force_paths_def ordered_deals_Suc correct_deals_def
  by (auto simp: always_correct_snoc lower_count_snoc)

text \<open>The count of paths obeys the recurrence of the table.\<close>

lemma brute_force_recurrence:
  assumes size: "0 \<le> size'" and k: "int k < size'" and t: "0 \<le> t" "t < size' - int k"
  shows "int (card (brute_force_paths size' numberLower (Suc k) t))
         = (\<Sum>j\<in>{0..size' - int k}.
              if reaches (size' - int k) j t
              then int (card (brute_force_paths size' numberLower k j)) else 0)"
proof -
  let ?D = "correct_deals size' numberLower k"
  let ?b = "size' - int k"
  let ?N = "\<lambda>ds. {d \<in> remaining size' ds.
              correct_deal size' numberLower ds d \<and> int (rank_in (remaining size' ds) d) = t}"
  let ?g = "lower_count size' numberLower"
  have rem: "int (card (remaining size' ds)) = ?b" if "ds \<in> ?D" for ds
    using that card_remaining(1)[of ds size' k] size by (simp add: correct_deals_def)
  have "int (card (brute_force_paths size' numberLower (Suc k) t)) = (\<Sum>ds\<in>?D. int (card (?N ds)))"
    unfolding brute_force_paths_Suc by (subst card_snoc_union) simp_all
  also have "\<dots> = (\<Sum>ds\<in>?D. if reaches ?b (?g ds) t then 1 else 0)"
  proof (rule sum.cong)
    fix ds assume ds: "ds \<in> ?D"
    show "int (card (?N ds)) = (if reaches ?b (?g ds) t then 1 else 0)"
      using next_cards[of t size' ds numberLower] t rem[OF ds] by simp
  qed simp
  also have "\<dots> = (\<Sum>j\<in>{0..?b}. \<Sum>ds\<in>{ds \<in> ?D. ?g ds = j}. if reaches ?b (?g ds) t then 1 else 0)"
  proof (rule sum.group[symmetric])
    show "?g ` ?D \<subseteq> {0..?b}"
    proof
      fix j assume "j \<in> ?g ` ?D"
      then obtain ds where ds: "ds \<in> ?D" "j = ?g ds" by blast
      then show "j \<in> {0..?b}"
        using lower_count_range[of size' numberLower ds] rem[OF ds(1)] by simp
    qed
  qed simp_all
  also have "\<dots> = (\<Sum>j\<in>{0..?b}. if reaches ?b j t
                                 then int (card (brute_force_paths size' numberLower k j)) else 0)"
  proof (rule sum.cong)
    fix j
    have "(\<Sum>ds\<in>{ds \<in> ?D. ?g ds = j}. if reaches ?b (?g ds) t then 1 else 0)
          = (\<Sum>ds\<in>{ds \<in> ?D. ?g ds = j}. if reaches ?b j t then 1 else (0::int))"
      by (rule sum.cong) auto
    also have "\<dots> = (if reaches ?b j t then int (card {ds \<in> ?D. ?g ds = j}) else 0)"
      by simp
    finally show "(\<Sum>ds\<in>{ds \<in> ?D. ?g ds = j}. if reaches ?b (?g ds) t then 1 else 0)
          = (if reaches ?b j t then int (card (brute_force_paths size' numberLower k j)) else 0)"
      by (simp add: brute_force_paths_correct_deals)
  qed simp
  finally show ?thesis .
qed

lemma lower_count_Nil:
  assumes "0 \<le> numberLower" "numberLower \<le> size'"
  shows "lower_count size' numberLower [] = numberLower"
proof -
  have "{r \<in> {0..<size'}. r < numberLower} = {0..<numberLower}" using assms by auto
  then have "card {r \<in> {0..<size'}. r < numberLower} = nat numberLower" by simp
  then show ?thesis
    using assms by (simp add: lower_count_def remaining_def deck_def last_played_def)
qed

lemma brute_force_paths_0:
  assumes "0 \<le> numberLower" "numberLower \<le> size'"
  shows "int (card (brute_force_paths size' numberLower 0 t)) = (if t = numberLower then 1 else 0)"
proof -
  have deals: "ordered_deals size' 0 = {[]}" by (auto simp: ordered_deals_def)
  have correct: "always_correct size' numberLower []" by (simp add: always_correct_def)
  show ?thesis
  proof (cases "t = numberLower")
    case True
    have "brute_force_paths size' numberLower 0 t = {[]}"
      unfolding brute_force_paths_def deals using correct lower_count_Nil[OF assms] True by blast
    then show ?thesis using True by simp
  next
    case False
    have "brute_force_paths size' numberLower 0 t = {}"
      unfolding brute_force_paths_def deals using lower_count_Nil[OF assms] False by blast
    then show ?thesis using False by simp
  qed
qed

text \<open>Every row of the table counts the paths of the labelled deck.\<close>

lemma table_row_counts_paths:
  assumes nL: "0 \<le> numberLower" "numberLower \<le> size'"
    and s: "int s < size'" and t: "0 \<le> t" "t < size' - int s"
  shows "table_row size' numberLower s ! nat t
         = int (card (brute_force_paths size' numberLower (Suc s) t))"
  using s t
proof (induction s arbitrary: t)
  case 0
  have "int (card (brute_force_paths size' numberLower (Suc 0) t))
        = (\<Sum>j\<in>{0..size' - int 0}.
             if reaches (size' - int 0) j t
             then int (card (brute_force_paths size' numberLower 0 j)) else 0)"
    by (rule brute_force_recurrence) (use 0 in simp_all)
  also have "\<dots> = (\<Sum>j\<in>{0..size'}. if j = numberLower
                                    then (if reaches size' numberLower t then 1 else 0) else 0)"
    by (rule sum.cong) (use nL in \<open>auto simp: brute_force_paths_0\<close>)
  also have "\<dots> = (if reaches size' numberLower t then 1 else 0)"
    using nL by (simp add: sum.delta)
  also have "\<dots> = table_row size' numberLower 0 ! nat t"
    using 0 by (simp add: nth_first_row reaches_def)
  finally show ?case by simp
next
  case (Suc s)
  let ?b = "size' - int (Suc s)"
  let ?prev = "table_row size' numberLower s"
  have b: "1 \<le> ?b" using Suc.prems by simp
  have "table_row size' numberLower (Suc s) ! nat t = paths_from ?b t ?prev"
    using Suc.prems by (simp add: nth_next_row)
  also have "\<dots> = (\<Sum>j\<in>{0..?b}. if reaches ?b j t then ?prev ! nat j else 0)"
    by (rule paths_from_reaches) (use Suc.prems in simp_all)
  also have "\<dots> = (\<Sum>j\<in>{0..?b}. if reaches ?b j t
                                 then int (card (brute_force_paths size' numberLower (Suc s) j))
                                 else 0)"
  proof (rule sum.cong)
    fix j assume "j \<in> {0..?b}"
    then have "?prev ! nat j = int (card (brute_force_paths size' numberLower (Suc s) j))"
      using Suc.prems by (intro Suc.IH) simp_all
    then show "(if reaches ?b j t then ?prev ! nat j else 0)
               = (if reaches ?b j t
                  then int (card (brute_force_paths size' numberLower (Suc s) j)) else 0)"
      by simp
  qed simp
  also have "\<dots> = int (card (brute_force_paths size' numberLower (Suc (Suc s)) t))"
    by (rule brute_force_recurrence[symmetric]) (use Suc.prems nL in simp_all)
  finally show ?case .
qed

lemma card_ordered_deals:
  assumes "0 \<le> size'" "int k \<le> size'"
  shows "int (card (ordered_deals size' k)) = deals size' k"
  using assms(2)
proof (induction k)
  case 0
  have "ordered_deals size' 0 = {[]}" by (auto simp: ordered_deals_def)
  then show ?case by (simp add: deals.simps)
next
  case (Suc k)
  have "int (card (ordered_deals size' (Suc k)))
        = (\<Sum>ds\<in>ordered_deals size' k. int (card (remaining size' ds)))"
    unfolding ordered_deals_Suc by (subst card_snoc_union) simp_all
  also have "\<dots> = (\<Sum>ds\<in>ordered_deals size' k. size' - int k)"
    by (rule sum.cong) (use card_remaining(1)[of _ size' k] assms(1) in auto)
  also have "\<dots> = deals size' k * (size' - int k)"
    using Suc by simp
  finally show ?case by (simp add: deals.simps)
qed

lemma row_sum_counts_correct_deals:
  assumes nL: "0 \<le> numberLower" "numberLower \<le> size'" and s: "int s < size'"
  shows "sum_list (table_row size' numberLower s) = int (card (correct_deals size' numberLower (Suc s)))"
proof -
  let ?D = "correct_deals size' numberLower (Suc s)"
  let ?g = "lower_count size' numberLower"
  let ?T = "{0..<size' - int s}"
  have "sum_list (table_row size' numberLower s)
        = (\<Sum>t\<in>?T. table_row size' numberLower s ! nat t)"
    using s by (simp add: sum_list_int_interval)
  also have "\<dots> = (\<Sum>t\<in>?T. int (card (brute_force_paths size' numberLower (Suc s) t)))"
    by (rule sum.cong) (use table_row_counts_paths[OF nL s] in auto)
  also have "\<dots> = (\<Sum>t\<in>?T. \<Sum>ds\<in>{ds \<in> ?D. ?g ds = t}. 1)"
    by (simp add: brute_force_paths_correct_deals)
  also have "\<dots> = (\<Sum>ds\<in>?D. 1)"
  proof (rule sum.group)
    show "?g ` ?D \<subseteq> ?T"
    proof
      fix j assume "j \<in> ?g ` ?D"
      then obtain ds where ds: "ds \<in> ?D" "j = ?g ds" by blast
      then have "int (card (remaining size' ds)) = size' - int (Suc s)"
        using card_remaining(1)[of ds size' "Suc s"] s by (simp add: correct_deals_def)
      then show "j \<in> ?T"
        using lower_count_range[of size' numberLower ds] ds(2) by simp
    qed
  qed simp_all
  finally show ?thesis by simp
qed

text \<open>
  Extending a deal of \<open>k\<close> cards to a longer one multiplies the number of deals by what the
  deck allows, whatever set of deals one starts from.
\<close>

lemma card_extensions:
  assumes size: "0 \<le> size'" and A: "A \<subseteq> ordered_deals size' k" and km: "int (k + m) \<le> size'"
  shows "int (card {p \<in> ordered_deals size' (k + m). take k p \<in> A}) * deals size' k
         = int (card A) * deals size' (k + m)"
  using km
proof (induction m)
  case 0
  have "{p \<in> ordered_deals size' (k + 0). take k p \<in> A} = A"
    using A by (auto simp: ordered_deals_def)
  then show ?case by simp
next
  case (Suc m)
  let ?E = "{p \<in> ordered_deals size' (k + m). take k p \<in> A}"
  have fin: "finite ?E" by simp
  have "{p \<in> ordered_deals size' (k + Suc m). take k p \<in> A}
        = (\<Union>p\<in>?E. (\<lambda>d. p @ [d]) ` remaining size' p)"
  proof (intro set_eqI iffI)
    fix xs assume xs: "xs \<in> {p \<in> ordered_deals size' (k + Suc m). take k p \<in> A}"
    then have "xs \<in> ordered_deals size' (Suc (k + m))" by simp
    then obtain p d where pd: "p \<in> ordered_deals size' (k + m)" "d \<in> remaining size' p"
      "xs = p @ [d]"
      unfolding ordered_deals_Suc by blast
    then have "take k xs = take k p" by (simp add: ordered_deals_def)
    then show "xs \<in> (\<Union>p\<in>?E. (\<lambda>d. p @ [d]) ` remaining size' p)"
      using xs pd by auto
  next
    fix xs assume "xs \<in> (\<Union>p\<in>?E. (\<lambda>d. p @ [d]) ` remaining size' p)"
    then obtain p d where pd: "p \<in> ?E" "d \<in> remaining size' p" "xs = p @ [d]" by blast
    then have "xs \<in> ordered_deals size' (Suc (k + m))"
      unfolding ordered_deals_Suc by blast
    moreover have "take k xs = take k p" using pd by (simp add: ordered_deals_def)
    ultimately show "xs \<in> {p \<in> ordered_deals size' (k + Suc m). take k p \<in> A}"
      using pd by simp
  qed
  then have "int (card {p \<in> ordered_deals size' (k + Suc m). take k p \<in> A})
             = (\<Sum>p\<in>?E. int (card (remaining size' p)))"
    by (simp add: card_snoc_union)
  also have "\<dots> = (\<Sum>p\<in>?E. size' - int (k + m))"
    by (rule sum.cong) (use card_remaining(1)[of _ size' "k + m"] size in auto)
  also have "\<dots> = int (card ?E) * (size' - int (k + m))"
    by simp
  finally have "int (card {p \<in> ordered_deals size' (k + Suc m). take k p \<in> A}) * deals size' k
                = int (card ?E) * deals size' k * (size' - int (k + m))"
    by simp
  also have "\<dots> = int (card A) * deals size' (k + m) * (size' - int (k + m))"
    using Suc by simp
  also have "\<dots> = int (card A) * deals size' (k + Suc m)"
    by (simp add: deals.simps)
  finally show ?case .
qed

lemma survival_is_brute_force_ratio:
  assumes nL: "0 \<le> numberLower" "numberLower \<le> size'" and n: "int n < size'"
  shows "survival size' numberLower n = brute_force_ratio size' numberLower n"
proof -
  define k where "k = Suc n"
  define m where "m = nat size' - k"
  define A where "A = correct_deals size' numberLower k"
  define E where "E = {p \<in> ordered_deals size' (nat size').
                        always_correct size' numberLower (take k p)}"
  have size: "0 \<le> size'" and km: "k + m = nat size'" "int (k + m) \<le> size'"
    using n by (simp_all add: k_def m_def)
  have A_sub: "A \<subseteq> ordered_deals size' k" by (auto simp: A_def correct_deals_def)
  have "E = {p \<in> ordered_deals size' (k + m). take k p \<in> A}"
    unfolding E_def A_def correct_deals_def km(1)
    using km(1) by (auto simp: ordered_deals_def dest: in_set_takeD)
  then have ext: "int (card E) * deals size' k = int (card A) * deals size' (k + m)"
    using card_extensions[OF size A_sub km(2)] by simp
  have pos: "0 < deals size' k" "0 < deals size' (k + m)"
    using deals_pos[of k size'] deals_pos[of "k + m" size'] km n by (simp_all add: k_def)
  have all: "int (card (ordered_deals size' (nat size'))) = deals size' (k + m)"
    using card_ordered_deals[OF size km(2)] km(1) by simp
  have rows: "sum_list (table_row size' numberLower n) = int (card A)"
    unfolding A_def k_def by (rule row_sum_counts_correct_deals) (use nL n in simp_all)
  have "survival size' numberLower n = of_int (int (card A)) / of_int (deals size' k)"
    by (simp add: survival_def rows k_def Fract_of_int_quotient)
  also have "\<dots> = of_int (int (card E)) / of_int (deals size' (k + m))"
  proof -
    have "(of_int (int (card E)) :: rat) * of_int (deals size' k)
          = of_int (int (card A)) * of_int (deals size' (k + m))"
      using ext by (metis of_int_mult)
    then show ?thesis using pos by (simp add: field_simps)
  qed
  also have "\<dots> = brute_force_ratio size' numberLower n"
    by (simp add: brute_force_ratio_def E_def k_def all Fract_of_int_quotient)
  finally show ?thesis .
qed

lemma exported_pair:
  assumes "0 \<le> q"
  shows "(mpz_get_ui Mathematical (mpq_numref q), mpz_get_ui Mathematical (mpq_denref q))
         = quotient_of q"
proof -
  obtain x y where xy: "quotient_of q = (x, y)" by (cases "quotient_of q")
  have y: "0 < y" using xy by (rule quotient_of_denom_pos)
  have q: "q = of_int x / of_int y" using xy by (rule quotient_of_div)
  have x: "0 \<le> x" using assms y by (simp add: q zero_le_divide_iff)
  show ?thesis
    using x y by (simp add: mpq_numref_def mpq_denref_def xy mpz_get_ui_def ulong_of_def)
qed

lemma set_enumerate_deals: "set (enumerate_deals size' k) = ordered_deals size' k"
  by (auto simp: enumerate_deals_def ordered_deals_def set_n_lists deck_def)

lemma distinct_enumerate_deals: "distinct (enumerate_deals size' k)"
  by (simp add: enumerate_deals_def distinct_n_lists)

lemma card_filter_enumerate_deals:
  "card {ds \<in> ordered_deals size' k. P ds} = length (filter P (enumerate_deals size' k))"
proof -
  have "{ds \<in> ordered_deals size' k. P ds} = set (filter P (enumerate_deals size' k))"
    by (auto simp: set_enumerate_deals)
  moreover have "card (set (filter P (enumerate_deals size' k)))
                 = length (filter P (enumerate_deals size' k))"
    by (rule distinct_card) (simp add: distinct_enumerate_deals)
  ultimately show ?thesis by (simp only:)
qed

lemma lower_count_enumerated [code]:
  "lower_count size' numberLower dealt
   = int (length (filter (\<lambda>r. r \<notin> set dealt \<and> r < last_played numberLower dealt)
                         [0..size' - 1]))"
proof -
  have "{r \<in> remaining size' dealt. r < last_played numberLower dealt}
        = set (filter (\<lambda>r. r \<notin> set dealt \<and> r < last_played numberLower dealt) [0..size' - 1])"
    by (auto simp: remaining_def deck_def)
  moreover have "card (set (filter (\<lambda>r. r \<notin> set dealt \<and> r < last_played numberLower dealt)
                                   [0..size' - 1]))
                 = length (filter (\<lambda>r. r \<notin> set dealt \<and> r < last_played numberLower dealt)
                                  [0..size' - 1])"
    by (rule distinct_card) simp
  ultimately show ?thesis
    unfolding lower_count_def by (simp only:)
qed

lemma higher_count_enumerated [code]:
  "higher_count size' numberLower dealt
   = int (length (filter (\<lambda>r. r \<notin> set dealt \<and> last_played numberLower dealt \<le> r)
                         [0..size' - 1]))"
proof -
  have "{r \<in> remaining size' dealt. last_played numberLower dealt \<le> r}
        = set (filter (\<lambda>r. r \<notin> set dealt \<and> last_played numberLower dealt \<le> r) [0..size' - 1])"
    by (auto simp: remaining_def deck_def)
  moreover have "card (set (filter (\<lambda>r. r \<notin> set dealt \<and> last_played numberLower dealt \<le> r)
                                   [0..size' - 1]))
                 = length (filter (\<lambda>r. r \<notin> set dealt \<and> last_played numberLower dealt \<le> r)
                                  [0..size' - 1])"
    by (rule distinct_card) simp
  ultimately show ?thesis
    unfolding higher_count_def by (simp only:)
qed

lemma always_correct_enumerated [code]:
  "always_correct size' numberLower ds
   \<longleftrightarrow> list_all (\<lambda>i. correct_deal size' numberLower (take i ds) (ds ! i)) [0..<length ds]"
  by (auto simp: always_correct_def list_all_iff)

lemma brute_force_paths_enumerated:
  "int (card (brute_force_paths size' numberLower k t))
   = int (length (filter (\<lambda>ds. always_correct size' numberLower ds
                               \<and> lower_count size' numberLower ds = t)
                         (enumerate_deals size' k)))"
  unfolding brute_force_paths_def by (simp only: card_filter_enumerate_deals)

lemma brute_force_ratio_enumerated:
  "brute_force_ratio size' numberLower n
   = Fract (int (length (filter (\<lambda>p. always_correct size' numberLower (take (Suc n) p))
                                (enumerate_deals size' (nat size')))))
           (int (length (enumerate_deals size' (nat size'))))"
proof -
  have "card (ordered_deals size' (nat size')) = length (enumerate_deals size' (nat size'))"
    using card_filter_enumerate_deals[of size' "nat size'" "\<lambda>_. True"] by simp
  then show ?thesis
    unfolding brute_force_ratio_def by (simp only: card_filter_enumerate_deals)
qed

lemma enumerated_three_cards:
  "map (\<lambda>s. map (\<lambda>t. int (card (brute_force_paths 3 1 (Suc s) t))) [0..2 - int s]) [0, 1]
   = [[0, 1, 1], [1, 2]]"
  "map (\<lambda>n. quotient_of (brute_force_ratio 3 1 n)) [0, 1] = [(2, 3), (1, 2)]"
  unfolding brute_force_paths_enumerated brute_force_ratio_enumerated by code_simp+

lemma all_fit_in_range:
  assumes "2 \<le> size'" "size' \<le> 13 \<or> a = Mathematical" "0 \<le> numberLower" "numberLower \<le> size'"
  shows "all_fit a size' numberLower"
proof (cases a)
  case Mathematical
  then show ?thesis by simp
next
  case FixedWidth
  then show ?thesis using assms all_fit_up_to_13[of size' numberLower] by simp
qed

lemma exported_in_range:
  assumes "2 \<le> size'" "size' \<le> 13 \<or> a = Mathematical"
  shows "exported a (cumulative_probabilities size' numberLower) ns ds
         = exported Mathematical (cumulative_probabilities size' numberLower) ns ds"
proof (cases a)
  case Mathematical
  then show ?thesis by simp
next
  case FixedWidth
  then show ?thesis using assms exported_up_to_13[of size' numberLower ns ds] by simp
qed

lemma matrix_counts_paths:
  assumes size: "2 \<le> size'" "size' \<le> 13 \<or> a = Mathematical"
    and nL: "0 \<le> numberLower" "numberLower \<le> size'"
    and stage: "0 \<le> stage" "stage \<le> size' - 2"
    and lowerCount: "0 \<le> lowerCount" "lowerCount \<le> size' - stage - 1"
  shows "\<exists>matrix. calculateMatrix a (createMatrix size') size' numberLower = Inr matrix
           \<and> matrix ! nat stage ! nat lowerCount
             = int (card (brute_force_paths size' numberLower (nat stage + 1) lowerCount))"
proof -
  have "table_fits a size' numberLower"
    using all_fit_in_range[OF size nL] by (simp add: all_fit_def)
  then have run: "calculateMatrix a (createMatrix size') size' numberLower
                  = Inr (table size' numberLower)"
    using size(1) nL by (rule calculateMatrix_eq[rotated -1])
  have "table size' numberLower ! nat stage = table_row size' numberLower (nat stage)"
    by (rule nth_table) (use stage in linarith)
  moreover have "table_row size' numberLower (nat stage) ! nat lowerCount
        = int (card (brute_force_paths size' numberLower (Suc (nat stage)) lowerCount))"
    by (rule table_row_counts_paths) (use nL stage lowerCount in simp_all)
  ultimately show ?thesis using run by simp
qed

lemma fractions_are_brute_force_ratios:
  assumes size: "3 \<le> size'" "size' \<le> 13 \<or> a = Mathematical"
    and nL: "0 \<le> numberLower" "numberLower \<le> size'"
    and bufs: "size' - 1 \<le> int (length ns)" "size' - 1 \<le> int (length ds)"
    and n: "0 \<le> n" "n < size' - 1"
  shows "\<exists>ns' ds'. calculateProbabilities a ns ds size' numberLower = Inr (ns', ds')
           \<and> (ns' ! nat n, ds' ! nat n) = quotient_of (brute_force_ratio size' numberLower (nat n))"
proof -
  let ?c = "cumulative_probabilities size' numberLower"
  let ?e = "exported Mathematical ?c ns ds"
  have size2: "2 \<le> size'" using size(1) by simp
  have "calculateProbabilities a ns ds size' numberLower = Inr (exported a ?c ns ds)"
    by (rule calculateProbabilities_eq) (use size nL bufs all_fit_in_range[OF size2 size(2) nL] in simp_all)
  then have run: "calculateProbabilities a ns ds size' numberLower = Inr (fst ?e, snd ?e)"
    using exported_in_range[OF size2 size(2)] by simp
  have len: "nat n < length ?c"
    using n by (simp add: cumulative_probabilities_def)
  have c: "?c ! nat n = survival size' numberLower (nat n)"
    by (rule cumulative_eq_survival) (use size n in simp_all)
  have nonneg: "0 \<le> survival size' numberLower (nat n)"
    using survival_nonneg[of "nat n" size' numberLower] n by simp
  have "(fst ?e ! nat n, snd ?e ! nat n) = quotient_of (survival size' numberLower (nat n))"
    using exported_pair[OF nonneg] by (simp add: exported_nth[OF len] c)
  also have "survival size' numberLower (nat n) = brute_force_ratio size' numberLower (nat n)"
    by (rule survival_is_brute_force_ratio) (use nL n in simp_all)
  finally show ?thesis using run by blast
qed

text \<open>
  Claim C1. For every valid state, each entry \<open>matrix[stage][lowerCount]\<close> that
  \<open>calculateMatrix\<close> produces is the number of ordered deals of \<open>stage + 1\<close> cards of the
  labelled deck along which the majority-rule predictor was right every time and after which
  \<open>lowerCount\<close> cards are lower than the last one; this holds for every size, two cards
  included, and in the fixed-width reading up to thirteen cards. From three cards on, the
  reduced fraction returned at index \<open>n\<close> is the share, among all orders of dealing the whole
  deck, of those in which the predictor is right at each of the first \<open>n + 1\<close> deals. With two
  cards no fraction is returned: the run ends in an access outside the empty permutation
  table.
\<close>

theorem brute_force_equivalence:
  "(2 \<le> size' \<and> (size' \<le> 13 \<or> a = Mathematical) \<and> 0 \<le> numberLower \<and> numberLower \<le> size'
      \<and> 0 \<le> stage \<and> stage \<le> size' - 2 \<and> 0 \<le> lowerCount \<and> lowerCount \<le> size' - stage - 1
    \<longrightarrow> (\<exists>matrix. calculateMatrix a (createMatrix size') size' numberLower = Inr matrix
           \<and> matrix ! nat stage ! nat lowerCount
             = int (card (brute_force_paths size' numberLower (nat stage + 1) lowerCount))))
   \<and> (3 \<le> size' \<and> (size' \<le> 13 \<or> a = Mathematical) \<and> 0 \<le> numberLower \<and> numberLower \<le> size'
      \<and> size' - 1 \<le> int (length ns) \<and> size' - 1 \<le> int (length ds) \<and> 0 \<le> n \<and> n < size' - 1
    \<longrightarrow> (\<exists>ns' ds'. calculateProbabilities a ns ds size' numberLower = Inr (ns', ds')
           \<and> (ns' ! nat n, ds' ! nat n)
             = quotient_of (brute_force_ratio size' numberLower (nat n))))
   \<and> (0 \<le> numberLower \<and> numberLower \<le> 2
    \<longrightarrow> calculateProbabilities a ns ds 2 numberLower = Inl OutOfBounds)"
proof (intro conjI impI)
  assume "2 \<le> size' \<and> (size' \<le> 13 \<or> a = Mathematical) \<and> 0 \<le> numberLower \<and> numberLower \<le> size'
      \<and> 0 \<le> stage \<and> stage \<le> size' - 2 \<and> 0 \<le> lowerCount \<and> lowerCount \<le> size' - stage - 1"
  then show "\<exists>matrix. calculateMatrix a (createMatrix size') size' numberLower = Inr matrix
           \<and> matrix ! nat stage ! nat lowerCount
             = int (card (brute_force_paths size' numberLower (nat stage + 1) lowerCount))"
    by (intro matrix_counts_paths) simp_all
next
  assume "3 \<le> size' \<and> (size' \<le> 13 \<or> a = Mathematical) \<and> 0 \<le> numberLower \<and> numberLower \<le> size'
      \<and> size' - 1 \<le> int (length ns) \<and> size' - 1 \<le> int (length ds) \<and> 0 \<le> n \<and> n < size' - 1"
  then show "\<exists>ns' ds'. calculateProbabilities a ns ds size' numberLower = Inr (ns', ds')
           \<and> (ns' ! nat n, ds' ! nat n)
             = quotient_of (brute_force_ratio size' numberLower (nat n))"
    by (intro fractions_are_brute_force_ratios) simp_all
next
  assume "0 \<le> numberLower \<and> numberLower \<le> 2"
  then show "calculateProbabilities a ns ds 2 numberLower = Inl OutOfBounds"
    by (intro calculateProbabilities_size_2) simp_all
qed

theorem brute_force_equivalence_witness:
  "(\<exists>matrix. calculateMatrix FixedWidth (createMatrix 3) 3 1 = Inr matrix
      \<and> matrix ! nat 1 ! nat 1 = int (card (brute_force_paths 3 1 (nat 1 + 1) 1))
      \<and> matrix ! nat 1 ! nat 1 = 2)
   \<and> (\<exists>ns' ds'. calculateProbabilities FixedWidth [0, 0] [0, 0] 3 1 = Inr (ns', ds')
      \<and> (ns' ! nat 1, ds' ! nat 1) = quotient_of (brute_force_ratio 3 1 (nat 1))
      \<and> (ns' ! nat 1, ds' ! nat 1) = (1, 2))
   \<and> calculateProbabilities FixedWidth [0] [0] 2 1 = Inl OutOfBounds"
proof -
  have paths: "int (card (brute_force_paths 3 1 (Suc (Suc 0)) 1)) = 2"
    unfolding brute_force_paths_enumerated by code_simp
  have ratio: "quotient_of (brute_force_ratio 3 1 (Suc 0)) = (1, 2)"
    unfolding brute_force_ratio_enumerated by code_simp
  show ?thesis
    using brute_force_equivalence[of 3 FixedWidth 1 1 1 "[0, 0]" "[0, 0]" 1]
      brute_force_equivalence[of 3 FixedWidth 1 1 1 "[0]" "[0]" 1]
    by (auto simp: paths ratio)
qed

section \<open>The table and the returned vector in both readings of the integer types\<close>

text \<open>
  The theorems of this section are stated for either reading \<open>a\<close> of the integer types. In the
  fixed-width reading, the one of the C program, they hold up to thirteen cards, the largest
  deck the tool admits; on unbounded integers they hold for every size.
\<close>

lemma calculateMatrix_in_range:
  assumes "2 \<le> size'" "size' \<le> 13 \<or> a = Mathematical" "0 \<le> numberLower" "numberLower \<le> size'"
  shows "calculateMatrix a (createMatrix size') size' numberLower = Inr (table size' numberLower)"
proof -
  have "table_fits a size' numberLower"
    using all_fit_in_range[OF assms] by (simp add: all_fit_def)
  with assms(1,3,4) show ?thesis by (rule calculateMatrix_eq)
qed

lemma calculateProbabilities_in_range:
  assumes "3 \<le> size'" "size' \<le> 13 \<or> a = Mathematical" "0 \<le> numberLower" "numberLower \<le> size'"
    and "size' - 1 \<le> int (length ns)" "size' - 1 \<le> int (length ds)"
  shows "calculateProbabilities a ns ds size' numberLower
         = calculateProbabilities Mathematical ns ds size' numberLower"
proof -
  have size: "2 \<le> size'" using assms(1) by simp
  have "calculateProbabilities a ns ds size' numberLower
        = Inr (exported a (cumulative_probabilities size' numberLower) ns ds)"
    by (rule calculateProbabilities_eq) (use assms all_fit_in_range[OF size assms(2-4)] in simp_all)
  moreover have "calculateProbabilities Mathematical ns ds size' numberLower
        = Inr (exported Mathematical (cumulative_probabilities size' numberLower) ns ds)"
    by (rule calculateProbabilities_eq) (use assms in simp_all)
  ultimately show ?thesis
    using exported_in_range[OF size assms(2)] by simp
qed

lemma returned_fractions_in_range:
  assumes "3 \<le> size'" "size' \<le> 13 \<or> a = Mathematical" "0 \<le> numberLower" "numberLower \<le> size'"
    and "size' - 1 \<le> int (length ns)" "size' - 1 \<le> int (length ds)"
  shows "\<exists>ns' ds'. calculateProbabilities a ns ds size' numberLower = Inr (ns', ds')
           \<and> (\<forall>n. n < nat (size' - 1) \<longrightarrow>
                  Fract (ns' ! n) (ds' ! n) = survival size' numberLower n
                  \<and> 0 \<le> ns' ! n \<and> ns' ! n \<le> ds' ! n \<and> 0 < ds' ! n)"
  unfolding calculateProbabilities_in_range[OF assms]
  by (rule returned_fractions) (use assms in simp_all)

text \<open>
  Thirteen cards is the largest deck of the fixed-width reading: with fourteen cards the table
  is still built, but \<open>calculateFinalProbability\<close> adds the two entries of its last row in
  an \<^verbatim>\<open>int\<close>, and their sum is above \<open>INT_MAX\<close>.
\<close>

lemma fourteen_cards_overflow:
  "calculateMatrix FixedWidth (createMatrix 14) 14 0 = Inr (table 14 0)"
  "table 14 0 ! 12 = [1254730560, 2130530634]"
  "calculateProbabilities FixedWidth (replicate 13 0) (replicate 13 0) 14 0 = Inl IntegerOverflow"
  by code_simp+

text \<open>
  Claim C3. For every stage \<open>s \<ge> 1\<close> and every target \<open>t\<close> of its row, the entry \<open>(s, t)\<close> of the
  table that \<open>calculateMatrix\<close> returns is the sum of row \<open>s - 1\<close> over the indices \<open>[0, k)\<close>
  plus the indices \<open>[l, before]\<close>, where \<open>before = size - s\<close> and \<open>(k, l)\<close> are the cut points in
  the specification's wording; it is also what \<open>getNumberPathsLeadingTo\<close> returns on that table.
  This holds of the 32-bit sums of the program for every deck of up to thirteen cards, and of
  sums on unbounded integers for every deck.
\<close>

theorem path_count_recurrence:
  assumes "2 \<le> size'" "size' \<le> 13 \<or> a = Mathematical" "0 \<le> numberLower" "numberLower \<le> size'"
    and "1 \<le> s" "s \<le> size' - 2" "0 \<le> t" "t \<le> size' - s - 1"
  shows "\<exists>m. calculateMatrix a (createMatrix size') size' numberLower = Inr m
            \<and> m ! nat s ! nat t
              = (\<Sum>i\<in>{0..<fst (spec_cut_points (size' - s) t)}. m ! nat (s - 1) ! nat i)
                + (\<Sum>i\<in>{snd (spec_cut_points (size' - s) t)..size' - s}. m ! nat (s - 1) ! nat i)
            \<and> getNumberPathsLeadingTo a m size' s t = Inr (m ! nat s ! nat t)"
proof (intro exI conjI)
  show m: "calculateMatrix a (createMatrix size') size' numberLower
        = Inr (table size' numberLower)"
    by (rule calculateMatrix_in_range) (rule assms)+
  have rec: "table size' numberLower ! nat s ! nat t
             = paths_from (size' - s) t (table size' numberLower ! nat (s - 1))"
    by (rule table_entry_recurrence) (rule assms)+
  show entry: "table size' numberLower ! nat s ! nat t
        = (\<Sum>i\<in>{0..<fst (spec_cut_points (size' - s) t)}. table size' numberLower ! nat (s - 1) ! nat i)
          + (\<Sum>i\<in>{snd (spec_cut_points (size' - s) t)..size' - s}.
               table size' numberLower ! nat (s - 1) ! nat i)"
    using rec by (simp add: paths_from_def spec_cut_points_eq)
  have prev: "table size' numberLower ! nat (s - 1) = table_row size' numberLower (nat (s - 1))"
    by (rule nth_table) (use assms in linarith)
  have row: "table size' numberLower ! nat s = table_row size' numberLower (nat s)"
    by (rule nth_table) (use assms in linarith)
  have "table_fits a size' numberLower"
    using all_fit_in_range[OF assms(1-4)] by (simp add: all_fit_def)
  then have "fits_int a (table_row size' numberLower (nat s) ! nat t)"
    by (rule table_fits_nth) (use assms in linarith)+
  then have fits: "fits_int a (paths_from (size' - s) t (table size' numberLower ! nat (s - 1)))"
    using rec by (simp add: row)
  have "getNumberPathsLeadingTo a (table size' numberLower) size' s t
        = Inr (paths_from (size' - s) t (table size' numberLower ! nat (s - 1)))"
  proof (rule getNumberPathsLeadingTo_eq)
    show "0 \<le> table size' numberLower ! nat (s - 1) ! nat x" if "0 \<le> x" "x \<le> size' - s" for x
      unfolding prev by (rule table_row_nonneg) (use that assms in linarith)
    show "fits_int a (paths_from (size' - s) t (table size' numberLower ! nat (s - 1)))"
      by (rule fits)
  qed (use assms in \<open>simp_all add: prev\<close>)
  then show "getNumberPathsLeadingTo a (table size' numberLower) size' s t
        = Inr (table size' numberLower ! nat s ! nat t)"
    using rec by simp
qed

theorem path_count_recurrence_witness:
  "\<exists>m. calculateMatrix FixedWidth (createMatrix 13) 13 6 = Inr m
       \<and> m ! nat 11 ! nat 1
         = (\<Sum>i\<in>{0..<fst (spec_cut_points (13 - 11) 1)}. m ! nat (11 - 1) ! nat i)
           + (\<Sum>i\<in>{snd (spec_cut_points (13 - 11) 1)..13 - 11}. m ! nat (11 - 1) ! nat i)
       \<and> getNumberPathsLeadingTo FixedWidth m 13 11 1 = Inr (m ! nat 11 ! nat 1)"
  using path_count_recurrence[of 13 FixedWidth 6 11 1] by simp

text \<open>
  Claim C7. For every valid input and every index \<open>n\<close> from 0 to \<open>size - 3\<close>, the run returns, and
  the fraction it reports at index \<open>n\<close> is at least the fraction it reports at index \<open>n + 1\<close>;
  in the fixed-width reading for every deck of up to thirteen cards. (With two cards the
  vector has one entry and there is no such \<open>n\<close>.)
\<close>

theorem cumulative_non_increasing:
  assumes "2 \<le> size'" "size' \<le> 13 \<or> a = Mathematical" "0 \<le> numberLower" "numberLower \<le> size'"
    and "size' - 1 \<le> int (length ns)" "size' - 1 \<le> int (length ds)"
    and "0 \<le> n" "n \<le> size' - 3"
  shows "\<exists>ns' ds'. calculateProbabilities a ns ds size' numberLower = Inr (ns', ds')
           \<and> Fract (ns' ! nat (n + 1)) (ds' ! nat (n + 1)) \<le> Fract (ns' ! nat n) (ds' ! nat n)"
proof -
  have size: "3 \<le> size'" using assms by simp
  from returned_fractions_in_range[OF size assms(2-6)]
  obtain ns' ds' where run: "calculateProbabilities a ns ds size' numberLower = Inr (ns', ds')"
    and fr: "\<And>k. k < nat (size' - 1) \<Longrightarrow> Fract (ns' ! k) (ds' ! k) = survival size' numberLower k"
    by blast
  have Suc_eq: "nat (n + 1) = Suc (nat n)" using assms by linarith
  have "survival size' numberLower (Suc (nat n)) \<le> survival size' numberLower (nat n)"
    by (rule survival_antimono) (use assms in simp)
  moreover have "Fract (ns' ! nat n) (ds' ! nat n) = survival size' numberLower (nat n)"
    by (rule fr) (use assms in linarith)
  moreover have "Fract (ns' ! Suc (nat n)) (ds' ! Suc (nat n)) = survival size' numberLower (Suc (nat n))"
    by (rule fr) (use assms in linarith)
  ultimately show ?thesis using run by (simp add: Suc_eq)
qed

theorem cumulative_non_increasing_witness:
  "\<exists>ns' ds'. calculateProbabilities FixedWidth (createProbabilitiesResult 13)
                (createProbabilitiesResult 13) 13 0 = Inr (ns', ds')
     \<and> Fract (ns' ! nat (10 + 1)) (ds' ! nat (10 + 1)) \<le> Fract (ns' ! nat 10) (ds' ! nat 10)"
proof -
  have len: "13 - 1 \<le> int (length (createProbabilitiesResult 13))"
    by (simp add: createProbabilitiesResult_def getLengthOfProbabilities_def)
  have "(2::int) \<le> 13" "(13::int) \<le> 13 \<or> FixedWidth = Mathematical" "(0::int) \<le> 0"
    "(0::int) \<le> 13" by simp_all
  from cumulative_non_increasing[OF this len len, of 10] show ?thesis by simp
qed

text \<open>
  Claim C6, as amended. The returned vector is cumulative, so its entries do not add up to the
  probability that the first prediction is right: at \<open>size = 3\<close>, \<open>numberLower = 1\<close> they add up
  to \<open>7/6\<close>, while \<open>(0 + 1 + 1) / 3 = 2/3\<close>. What equals \<open>(\<Sum>i. pathCount[0][i]) / size\<close>, for
  every valid input of three to thirteen cards, is the sum of the vector before the
  accumulation, which is also entry 0 of the returned vector. (On unbounded integers the same
  holds for every deck of at least three cards.)
\<close>

theorem first_entry_is_first_prediction:
  assumes "3 \<le> size'" "size' \<le> 13 \<or> a = Mathematical" "0 \<le> numberLower" "numberLower \<le> size'"
    and "size' - 1 \<le> int (length ns)" "size' - 1 \<le> int (length ds)"
  shows "\<exists>m perms probs ns' ds'.
           calculateMatrix a (createMatrix size') size' numberLower = Inr m
           \<and> calculatePermutations a (createPermutations size') size' = Inr perms
           \<and> calculateInternalProbabilities a m (createProbabilities size') perms size'
               = Inr probs
           \<and> calculateProbabilities a ns ds size' numberLower = Inr (ns', ds')
           \<and> sum_list probs = Fract (sum_list (m ! 0)) size'
           \<and> Fract (ns' ! 0) (ds' ! 0) = Fract (sum_list (m ! 0)) size'"
proof -
  have size: "2 \<le> size'" using assms(1) by simp
  have fit: "permutations_fit a size'" "probabilities_fit a size' numberLower"
    using all_fit_in_range[OF size assms(2-4)] by (simp_all add: all_fit_def)
  from returned_fractions_in_range[OF assms]
  obtain ns' ds' where run: "calculateProbabilities a ns ds size' numberLower = Inr (ns', ds')"
    and fr: "\<And>k. k < nat (size' - 1) \<Longrightarrow> Fract (ns' ! k) (ds' ! k) = survival size' numberLower k"
    by blast
  have m: "calculateMatrix a (createMatrix size') size' numberLower
           = Inr (table size' numberLower)"
    by (rule calculateMatrix_in_range) (use assms in simp_all)
  have p: "calculatePermutations a (createPermutations size') size'
           = Inr (permutation_table size')"
    by (rule calculatePermutations_eq) (use assms fit in simp_all)
  have i: "calculateInternalProbabilities a (table size' numberLower)
             (createProbabilities size') (permutation_table size') size'
           = Inr (internal_probabilities size' numberLower)"
    by (rule calculateInternalProbabilities_eq) (use assms fit in simp_all)
  have row0: "table size' numberLower ! 0 = table_row size' numberLower 0"
    by (rule nth_table) (use assms in simp)
  have s0: "survival size' numberLower 0 = Fract (sum_list (table size' numberLower ! 0)) size'"
    by (simp add: survival_def row0 deals.simps)
  have "cumulative_probabilities size' numberLower ! 0 = survival size' numberLower 0"
    by (rule cumulative_eq_survival) (use assms in simp_all)
  then have total: "sum_list (internal_probabilities size' numberLower)
                    = Fract (sum_list (table size' numberLower ! 0)) size'"
    using assms by (simp add: cumulative_probabilities_def nth_accumulated s0)
  have first: "Fract (ns' ! 0) (ds' ! 0) = Fract (sum_list (table size' numberLower ! 0)) size'"
    using fr[of 0] assms by (simp add: s0)
  show ?thesis
    using m p i run total first by blast
qed

theorem first_entry_is_first_prediction_witness:
  "\<exists>m perms probs ns' ds'.
     calculateMatrix FixedWidth (createMatrix 3) 3 1 = Inr m
     \<and> calculatePermutations FixedWidth (createPermutations 3) 3 = Inr perms
     \<and> calculateInternalProbabilities FixedWidth m (createProbabilities 3) perms 3 = Inr probs
     \<and> calculateProbabilities FixedWidth [0, 0] [0, 0] 3 1 = Inr (ns', ds')
     \<and> sum_list probs = Fract (sum_list (m ! 0)) 3
     \<and> Fract (ns' ! 0) (ds' ! 0) = Fract (sum_list (m ! 0)) 3"
  using first_entry_is_first_prediction[of 3 FixedWidth 1 "[0, 0]" "[0, 0]"] by simp

theorem sum_of_returned_vector_counterexample:
  "\<exists>m ns' ds'.
     calculateMatrix FixedWidth (createMatrix 3) 3 1 = Inr m
     \<and> calculateProbabilities FixedWidth [0, 0] [0, 0] 3 1 = Inr (ns', ds')
     \<and> (\<Sum>n\<in>{0..<nat (getLengthOfProbabilities 3)}. Fract (ns' ! n) (ds' ! n)) = Fract 7 6
     \<and> Fract (sum_list (m ! 0)) 3 = Fract 2 3
     \<and> (\<Sum>n\<in>{0..<nat (getLengthOfProbabilities 3)}. Fract (ns' ! n) (ds' ! n))
         \<noteq> Fract (sum_list (m ! 0)) 3"
proof (intro exI conjI)
  show "calculateMatrix FixedWidth (createMatrix 3) 3 1 = Inr [[0, 1, 1], [1, 2]]"
    by (rule worked_matrix)
  show "calculateProbabilities FixedWidth [0, 0] [0, 0] 3 1 = Inr ([2, 1], [3, 2])"
    by (simp add: calculateProbabilities_def calculateInternalProbabilities_def worked_matrix
        worked_permutations worked_initial worked_final worked_accumulate worked_convert)
  show "(\<Sum>n\<in>{0..<nat (getLengthOfProbabilities 3)}. Fract ([2, 1] ! n) ([3, 2] ! n)) = Fract 7 6"
    by (simp add: getLengthOfProbabilities_def numeral_2_eq_2 Fract_of_int_quotient)
  show "Fract (sum_list ([[0, 1, 1], [1, 2]] ! 0)) 3 = Fract 2 3"
    by simp
  show "(\<Sum>n\<in>{0..<nat (getLengthOfProbabilities 3)}. Fract ([2, 1] ! n) ([3, 2] ! n))
        \<noteq> Fract (sum_list ([[0, 1, 1], [1, 2]] ! 0)) 3"
    by (simp add: getLengthOfProbabilities_def numeral_2_eq_2 Fract_of_int_quotient)
qed



end
